theory Spec2Isabelle
  imports Complex_Main "HOL-Library.Sublist"
begin

section \<open>Text\<close>

text \<open>
  The script works on Python \<open>str\<close> values read from a PDF. A string is modelled
  as a \<open>char list\<close>; a \<open>char\<close> stands for a code point below 256, which covers the
  ASCII text of a bank statement. The library calls on strings (\<open>str.strip\<close>,
  \<open>str.replace\<close>, \<open>re.sub\<close>, \<open>str.contains\<close>) are modelled by what they compute
  on such strings.
\<close>

definition isspace :: "char \<Rightarrow> bool" where
  \<comment> \<open>\<open>str.isspace\<close> on one character: TAB, LF, VT, FF, CR, FS, GS, RS, US, SPACE, NEL, NBSP.\<close>
  "isspace c = (of_char c \<in> set [9, 10, 11, 12, 13, 28, 29, 30, 31, 32, 133, 160 :: nat])"

definition strip :: "string \<Rightarrow> string" where
  \<comment> \<open>\<open>s.strip()\<close>: leading and trailing whitespace removed.\<close>
  "strip s = rev (dropWhile isspace (rev (dropWhile isspace s)))"

section \<open>Row normalisation (lines 10 to 25)\<close>

text \<open>
  \<open>page.extract_tables()\<close> gives, for each page, a list of tables; a table is a list of
  rows and a row a list of cells, each a string or \<open>None\<close>.
\<close>

type_synonym cell = "string option"
type_synonym raw_row = "cell list"
type_synonym table = "raw_row list"
type_synonym page = "table list"

definition clean_cell :: "cell \<Rightarrow> string" where
  \<comment> \<open>\<open>cell.strip() if cell else ""\<close>: \<open>None\<close> and the empty string are both falsy.\<close>
  "clean_cell cell = (case cell of None \<Rightarrow> [] | Some s \<Rightarrow> if s = [] then [] else strip s)"

fun rows_loop :: "string list list \<Rightarrow> table \<Rightarrow> string list list" where
  \<comment> \<open>\<open>for row in table\<close>, the accumulator is \<open>all_transactions\<close>.\<close>
  "rows_loop all_transactions [] = all_transactions"
| "rows_loop all_transactions (row # rest) =
     (let clean_row = map clean_cell row in
      if length clean_row < 7 then rows_loop all_transactions rest
      else rows_loop (all_transactions @ [clean_row]) rest)"

fun tables_loop :: "string list list \<Rightarrow> page \<Rightarrow> string list list" where
  \<comment> \<open>\<open>for table in tables\<close>\<close>
  "tables_loop all_transactions [] = all_transactions"
| "tables_loop all_transactions (table # rest) =
     tables_loop (rows_loop all_transactions table) rest"

fun pages_loop :: "string list list \<Rightarrow> page list \<Rightarrow> string list list" where
  \<comment> \<open>\<open>for i, page in enumerate(pdf.pages)\<close>\<close>
  "pages_loop all_transactions [] = all_transactions"
| "pages_loop all_transactions (page # rest) =
     pages_loop (tables_loop all_transactions page) rest"

definition collect_transactions :: "page list \<Rightarrow> string list list" where
  "collect_transactions pages = pages_loop [] pages"

section \<open>Values and data frames\<close>

text \<open>
  A cell of a data frame holds a Python value: text, \<open>None\<close>, a number of a numeric
  column (\<open>Num\<close>: a finite float, or an integer, as the rational number it is), the
  floats \<open>inf\<close>, \<open>-inf\<close> and \<open>nan\<close>, or an integer (\<open>IntV\<close>: the default column
  labels of a new frame). A frame is its column labels, its
  row labels (the index) and its rows; every row of a frame built by pandas has one cell
  per column (\<open>wf_df\<close>).
\<close>

datatype pyval = Str string | PyNone | Num rat | PInf | NInf | NaN | IntV nat

datatype error = FileNotFoundError | ValueError | AttributeError | KeyError | IndexError | OtherError

record dataframe =
  columns :: "pyval list"
  index :: "nat list"
  data :: "pyval list list"

definition wf_df :: "dataframe \<Rightarrow> bool" where
  "wf_df df = list_all (\<lambda>row. length row = length (columns df)) (data df)"

definition DataFrame :: "string list list \<Rightarrow> dataframe" where
  \<comment> \<open>\<open>pd.DataFrame(rows)\<close> on a list of lists: as many columns as the longest row has
      cells, labelled 0, 1, ...; a shorter row is filled up with \<open>None\<close>.\<close>
  "DataFrame rows =
     (let n = foldr max (map length rows) 0 in
      \<lparr>columns = map IntV [0..<n],
       index = [0..<length rows],
       data = map (\<lambda>row. map Str row @ replicate (n - length row) PyNone) rows\<rparr>)"

definition positions :: "pyval \<Rightarrow> dataframe \<Rightarrow> nat list" where
  "positions label df = filter (\<lambda>j. columns df ! j = label) [0..<length (columns df)]"

definition getcol :: "nat \<Rightarrow> pyval list list \<Rightarrow> pyval list" where
  "getcol j rows = map (\<lambda>row. row ! j) rows"

definition setcol :: "nat \<Rightarrow> pyval list \<Rightarrow> pyval list list \<Rightarrow> pyval list list" where
  "setcol j vs rows = map (\<lambda>(row, v). row[j := v]) (zip rows vs)"

definition series_of :: "pyval \<Rightarrow> dataframe \<Rightarrow> pyval list option" where
  \<comment> \<open>\<open>df[label]\<close> as a Series. A label that occurs twice selects a DataFrame instead, and a
      label that does not occur raises \<open>KeyError\<close>: both are \<open>None\<close> here, the caller says
      which error follows.\<close>
  "series_of label df =
     (case positions label df of [j] \<Rightarrow> Some (getcol j (data df)) | _ \<Rightarrow> None)"

definition update_series ::
  "error \<Rightarrow> pyval \<Rightarrow> (pyval list \<Rightarrow> pyval list) \<Rightarrow> dataframe \<Rightarrow> error + dataframe" where
  \<comment> \<open>\<open>df[label] = f(df[label])\<close> for a label of the frame; \<open>err\<close> is what \<open>f\<close> raises when
      \<open>df[label]\<close> is not a Series.\<close>
  "update_series err label f df =
     (case positions label df of
        [j] \<Rightarrow> Inr (df\<lparr>data := setcol j (f (getcol j (data df))) (data df)\<rparr>)
      | _ \<Rightarrow> Inl err)"

definition select :: "bool list \<Rightarrow> 'a list \<Rightarrow> 'a list" where
  \<comment> \<open>boolean-mask indexing: the entries whose mask is \<open>True\<close>, in order\<close>
  "select flags xs = map snd (filter fst (zip flags xs))"

section \<open>Header resolution (lines 34 to 55)\<close>

definition lower :: "char \<Rightarrow> char" where
  "lower c = (if 65 \<le> (of_char c :: nat) \<and> (of_char c :: nat) \<le> 90
              then char_of (of_char c + 32 :: nat) else c)"

definition str_contains :: "string \<Rightarrow> pyval \<Rightarrow> bool" where
  \<comment> \<open>\<open>.str.contains(pat, case=False, na=False)\<close> on one cell, for a pattern of letters:
      the pattern occurs in the text, letter case ignored; a cell that is no text gives
      \<open>False\<close>.\<close>
  "str_contains pat v =
     (case v of Str s \<Rightarrow> sublist (map lower pat) (map lower s) | _ \<Rightarrow> False)"

definition headers :: "string list" where
  "headers = [''Date'', ''Narration'', ''Chq./Ref.No.'', ''Value Date'',
              ''Withdrawal Amount'', ''Deposit Amount'', ''Closing Balance'']"

definition header_mask :: "pyval list \<Rightarrow> pyval list \<Rightarrow> bool list" where
  "header_mask col0 col1 =
     map (\<lambda>(a, b). a \<and> b) (zip (map (str_contains ''Date'') col0) (map (str_contains ''Narration'') col1))"

definition resolve_header :: "dataframe \<Rightarrow> error + dataframe" where
  "resolve_header df =
     (case (series_of (IntV 0) df, series_of (IntV 1) df) of
        (Some col0, Some col1) \<Rightarrow>
        let hmask = header_mask col0 col1 in
        if list_ex id hmask then
          \<comment> \<open>\<open>df.columns = headers\<close> raises \<open>ValueError\<close> (length mismatch) unless the frame
              has as many columns as there are names\<close>
          if length (columns df) \<noteq> length headers then Inl ValueError
          else Inr \<lparr>columns = map Str headers,
                    index = select (map Not hmask) (index df),
                    data = select (map Not hmask) (data df)\<rparr>
        else
          \<comment> \<open>\<open>df.iloc[0]\<close> raises \<open>IndexError\<close> on a frame without rows\<close>
          (case data df of [] \<Rightarrow> Inl IndexError
           | first # rest \<Rightarrow> Inr \<lparr>columns = first, index = tl (index df), data = rest\<rparr>)
      | _ \<Rightarrow> Inl KeyError)"

section \<open>Field cleaning (lines 57 to 81)\<close>

subsection \<open>What is left to the library\<close>

text \<open>
  \<open>pd.to_numeric\<close> and \<open>pd.to_datetime\<close> are library code. Their behaviour is written
  out below where pandas 2 and pandas 3 agree and the inputs of a bank statement lie:
  signed numerals of at most 15 digits, and columns of dates whose first non-empty cell is
  a text \<open>DD/MM/YYYY\<close>. What lies outside (and differs between versions, or depends on the
  clock) is a field of this record:
  \<^item> \<open>float_str\<close>: the text \<open>str\<close> gives for a finite float;
  \<^item> \<open>long_numeral\<close>: what \<open>pd.to_numeric\<close> makes of an unsigned numeral of more than 15
    digits (a rounded value, \<open>inf\<close>, or \<open>nan\<close> after a failed parse);
  \<^item> \<open>other_numeric\<close>: what it makes of a text with other characters than a sign, digits
    and points (blanks, exponents, words); line 61 leaves no such text;
  \<^item> \<open>keeps_far\<close>: whether a date outside the years 1678 to 2261 is kept (a Timestamp
    of nanoseconds cannot hold it, and \<open>errors="coerce"\<close> then gives \<open>NaT\<close>);
  \<^item> \<open>year_text\<close>: the text \<open>%Y\<close> gives for a year below 1000;
  \<^item> \<open>other_cell\<close>: the date of a cell that is one of the words \<open>now\<close>, \<open>today\<close>,
    \<open>NaT\<close>, \<open>nan\<close>, or no text at all;
  \<^item> \<open>other_datetime\<close>: the dates of a column whose first non-empty cell is no text
    \<open>DD/MM/YYYY\<close> (the format is then guessed otherwise, or each cell read by itself).
\<close>

datatype date = Date (year: nat) (month: nat) (day: nat)

record library =
  float_str :: "rat \<Rightarrow> string"
  long_numeral :: "string \<Rightarrow> pyval"
  other_numeric :: "string \<Rightarrow> pyval"
  keeps_far :: "date \<Rightarrow> bool"
  year_text :: "nat \<Rightarrow> string"
  other_cell :: "pyval \<Rightarrow> date option"
  other_datetime :: "pyval list \<Rightarrow> nat \<Rightarrow> date option"

subsection \<open>Text and numbers\<close>

definition isdigit :: "char \<Rightarrow> bool" where
  "isdigit c = (48 \<le> (of_char c :: nat) \<and> (of_char c :: nat) \<le> 57)"

definition digit_val :: "char \<Rightarrow> nat" where
  "digit_val c = of_char c - 48"

definition digit_char :: "nat \<Rightarrow> char" where
  "digit_char n = char_of (48 + n)"

function show_nat :: "nat \<Rightarrow> string" where
  \<comment> \<open>\<open>str(n)\<close> for a natural number\<close>
  "show_nat n = (if n < 10 then [digit_char n] else show_nat (n div 10) @ [digit_char (n mod 10)])"
  by pat_completeness auto
termination
  by (relation "measure id") auto

declare show_nat.simps [simp del]

definition astype_str :: "library \<Rightarrow> pyval \<Rightarrow> string" where
  \<comment> \<open>\<open>.astype(str)\<close> on one cell\<close>
  "astype_str lib v =
     (case v of Str s \<Rightarrow> s | PyNone \<Rightarrow> ''None'' | NaN \<Rightarrow> ''nan''
      | Num q \<Rightarrow> float_str lib q | PInf \<Rightarrow> ''inf'' | NInf \<Rightarrow> ''-inf''
      | IntV n \<Rightarrow> show_nat n)"

fun str_replace :: "string \<Rightarrow> string \<Rightarrow> string \<Rightarrow> string" where
  \<comment> \<open>\<open>s.replace(old, new)\<close>: every occurrence of \<open>old\<close>, leftmost first, without overlap\<close>
  "str_replace old new [] = (if old = [] then new else [])"
| "str_replace old new (c # cs) =
     (if old = [] then new @ c # str_replace old new cs
      else if prefix old (c # cs) then new @ str_replace old new (drop (length old) (c # cs))
      else c # str_replace old new cs)"

definition strip_non_numeric :: "string \<Rightarrow> string" where
  \<comment> \<open>\<open>re.sub(r"[^\\d.]", "", s)\<close>: only digits and decimal points stay\<close>
  "strip_non_numeric s = filter (\<lambda>c. isdigit c \<or> c = CHR ''.'') s"

subsection \<open>Binary floating point\<close>

text \<open>
  A float is the rational number it is, or an infinity, or \<open>nan\<close>. \<open>round_b64 q\<close> is the
  binary64 number nearest to \<open>q\<close>, ties to the even mantissa: 53 bits of mantissa at the
  binary exponent of \<open>q\<close>. It is used on the numerals of at most 15 digits, which lie
  between \<open>10^-15\<close> and \<open>10^15\<close>, far from overflow and from the subnormal numbers.
\<close>

function bit_length :: "nat \<Rightarrow> nat" where
  "bit_length n = (if n = 0 then 0 else Suc (bit_length (n div 2)))"
  by pat_completeness auto
termination
  by (relation "measure id") auto

declare bit_length.simps [simp del]

definition binary_exponent :: "rat \<Rightarrow> int" where
  \<comment> \<open>for \<open>0 < q\<close>, the \<open>e\<close> with \<open>2^e \<le> q < 2^(e+1)\<close>\<close>
  "binary_exponent q =
     (if 1 \<le> q then int (bit_length (nat \<lfloor>q\<rfloor>)) - 1
      else - int (bit_length (nat \<lceil>1 / q\<rceil> - 1)))"

definition pow2 :: "int \<Rightarrow> rat" where
  "pow2 e = (if 0 \<le> e then 2 ^ nat e else 1 / 2 ^ nat (- e))"

definition round_half_even :: "rat \<Rightarrow> int" where
  "round_half_even x =
     (let f = \<lfloor>x\<rfloor>; d = x - of_int f
      in if d < 1 / 2 then f else if 1 / 2 < d then f + 1 else if even f then f else f + 1)"

definition round_b64 :: "rat \<Rightarrow> rat" where
  "round_b64 q =
     (if q = 0 then 0
      else let u = pow2 (binary_exponent \<bar>q\<bar> - 52)
           in sgn q * of_int (round_half_even (\<bar>q\<bar> / u)) * u)"

subsection \<open>Amounts (lines 60 to 62)\<close>

fun scan_digits :: "nat \<Rightarrow> nat \<Rightarrow> string \<Rightarrow> nat \<times> nat \<times> string" where
  \<comment> \<open>the digit loop of the parser: \<open>number = number * 10 + digit\<close>, counting the digits\<close>
  "scan_digits number num_digits [] = (number, num_digits, [])"
| "scan_digits number num_digits (c # cs) =
     (if isdigit c then scan_digits (number * 10 + digit_val c) (Suc num_digits) cs
      else (number, num_digits, c # cs))"

definition magnitude :: "pyval \<Rightarrow> pyval" where
  \<comment> \<open>the parser reads the sign first and the numeral after it: what it makes of an
      unsigned numeral is no negative number\<close>
  "magnitude v = (case v of Num q \<Rightarrow> Num \<bar>q\<bar> | PInf \<Rightarrow> PInf | NInf \<Rightarrow> PInf | _ \<Rightarrow> NaN)"

definition negate :: "pyval \<Rightarrow> pyval" where
  "negate v = (case v of Num q \<Rightarrow> Num (- q) | PInf \<Rightarrow> NInf | NInf \<Rightarrow> PInf | _ \<Rightarrow> v)"

definition unsigned_numeric :: "library \<Rightarrow> string \<Rightarrow> pyval" where
  \<comment> \<open>a text of digits and points: digits, then optionally a point and digits, scanned
      left to right into an integer and a count of decimals, then one division by the
      power of ten. No digit at all, or anything left over (a second point), is a parse
      failure, \<open>nan\<close> under \<open>errors="coerce"\<close>.\<close>
  "unsigned_numeric lib s =
     (case scan_digits 0 0 s of (number, num_digits, p) \<Rightarrow>
        (case p of
           [] \<Rightarrow> if num_digits = 0 then NaN
                 else if num_digits \<le> 15 then Num (round_b64 (of_nat number))
                 else magnitude (long_numeral lib s)
         | c # q \<Rightarrow>
             if c = CHR ''.'' then
               (case scan_digits number num_digits q of (number', num_digits', p') \<Rightarrow>
                  if num_digits' = 0 \<or> p' \<noteq> [] then NaN
                  else if num_digits' \<le> 15
                  then Num (round_b64 (of_nat number' / 10 ^ (num_digits' - num_digits)))
                  else magnitude (long_numeral lib s))
             else NaN))"

definition split_sign :: "string \<Rightarrow> bool \<times> string" where
  "split_sign s =
     (case s of [] \<Rightarrow> (False, [])
      | c # r \<Rightarrow> if c = CHR ''-'' then (True, r) else if c = CHR ''+'' then (False, r)
                 else (False, s))"

definition to_numeric :: "library \<Rightarrow> string \<Rightarrow> pyval" where
  \<comment> \<open>\<open>pd.to_numeric(s, errors="coerce")\<close> on one text cell: an optional sign and a numeral
      of digits and points; any other text is left to \<open>other_numeric\<close>\<close>
  "to_numeric lib s =
     (case split_sign s of (negative, body) \<Rightarrow>
        if list_all (\<lambda>c. isdigit c \<or> c = CHR ''.'') body
        then (if negative then negate (unsigned_numeric lib body) else unsigned_numeric lib body)
        else other_numeric lib s)"

definition fillna :: "rat \<Rightarrow> pyval \<Rightarrow> pyval" where
  "fillna d v = (if v = NaN then Num d else v)"

definition clean_amount :: "library \<Rightarrow> pyval \<Rightarrow> pyval" where
  \<comment> \<open>lines 60 to 62 on one cell\<close>
  "clean_amount lib v =
     fillna 0 (to_numeric lib (strip_non_numeric (str_replace '','' [] (astype_str lib v))))"

subsection \<open>Dates (lines 66 to 74)\<close>

text \<open>
  \<open>pd.to_datetime(column, dayfirst=True, errors="coerce")\<close> takes the first cell that is
  neither missing nor the empty text, guesses one format from it, the day before the month
  where both readings are dates, and reads every cell by that format alone: a text that
  does not match it, or names no date of the calendar, is \<open>NaT\<close>.
\<close>

definition is_leap :: "nat \<Rightarrow> bool" where
  "is_leap y = (y mod 4 = 0 \<and> (y mod 100 \<noteq> 0 \<or> y mod 400 = 0))"

definition days_in_month :: "nat \<Rightarrow> nat \<Rightarrow> nat" where
  "days_in_month y m =
     (if m = 2 then (if is_leap y then 29 else 28)
      else if m = 4 \<or> m = 6 \<or> m = 9 \<or> m = 11 then 30 else 31)"

definition calendar_date :: "date \<Rightarrow> bool" where
  "calendar_date d =
     (1 \<le> month d \<and> month d \<le> 12 \<and> 1 \<le> day d \<and> day d \<le> days_in_month (year d) (month d))"

definition admitted :: "library \<Rightarrow> date \<Rightarrow> bool" where
  \<comment> \<open>a date the result column can hold\<close>
  "admitted lib d =
     (calendar_date d \<and> ((1678 \<le> year d \<and> year d \<le> 2261) \<or> keeps_far lib d))"

definition coerce :: "library \<Rightarrow> date option \<Rightarrow> date option" where
  "coerce lib x = (case x of None \<Rightarrow> None | Some d \<Rightarrow> if admitted lib d then Some d else None)"

fun split_on :: "char \<Rightarrow> string \<Rightarrow> string list" where
  \<comment> \<open>\<open>s.split(sep)\<close>\<close>
  "split_on sep [] = [[]]"
| "split_on sep (c # cs) =
     (if c = sep then [] # split_on sep cs
      else (case split_on sep cs of [] \<Rightarrow> [[c]] | w # ws \<Rightarrow> (c # w) # ws))"

definition number_of :: "string \<Rightarrow> nat" where
  \<comment> \<open>\<open>int(s)\<close> for a text of digits\<close>
  "number_of s = foldl (\<lambda>n c. 10 * n + digit_val c) 0 s"

definition day_field :: "string \<Rightarrow> nat option" where
  \<comment> \<open>\<open>%d\<close>: \<open>3[0-1]|[1-2]\\d|0[1-9]|[1-9]| [1-9]\<close>\<close>
  "day_field s =
     (case s of
        [a] \<Rightarrow> if isdigit a \<and> a \<noteq> CHR ''0'' then Some (digit_val a) else None
      | [a, b] \<Rightarrow>
          if a = CHR '' '' then (if isdigit b \<and> b \<noteq> CHR ''0'' then Some (digit_val b) else None)
          else if isdigit a \<and> isdigit b \<and> 1 \<le> number_of [a, b] \<and> number_of [a, b] \<le> 31
          then Some (number_of [a, b]) else None
      | _ \<Rightarrow> None)"

definition month_field :: "string \<Rightarrow> nat option" where
  \<comment> \<open>\<open>%m\<close>: \<open>1[0-2]|0[1-9]|[1-9]\<close>\<close>
  "month_field s =
     (case s of
        [a] \<Rightarrow> if isdigit a \<and> a \<noteq> CHR ''0'' then Some (digit_val a) else None
      | [a, b] \<Rightarrow>
          if isdigit a \<and> isdigit b \<and> 1 \<le> number_of [a, b] \<and> number_of [a, b] \<le> 12
          then Some (number_of [a, b]) else None
      | _ \<Rightarrow> None)"

definition year_field :: "string \<Rightarrow> nat option" where
  \<comment> \<open>\<open>%Y\<close>: \<open>\\d\\d\\d\\d\<close>\<close>
  "year_field s = (if length s = 4 \<and> list_all isdigit s then Some (number_of s) else None)"

definition strptime :: "string \<Rightarrow> date option" where
  \<comment> \<open>a text read by the format \<open>%d/%m/%Y\<close>, the whole text matching\<close>
  "strptime s =
     (case split_on CHR ''/'' s of
        [a, b, c] \<Rightarrow>
          (case (day_field a, month_field b, year_field c) of
             (Some d, Some m, Some y) \<Rightarrow>
               if calendar_date (Date y m d) then Some (Date y m d) else None
           | _ \<Rightarrow> None)
      | _ \<Rightarrow> None)"

definition guessed_day_first :: "string \<Rightarrow> bool" where
  \<comment> \<open>the text from which the format \<open>%d/%m/%Y\<close> is guessed under \<open>dayfirst=True\<close>: two
      digits, a slash, two digits, a slash, four digits of a year from 1000 on, a date of
      the calendar when the first number is the day\<close>
  "guessed_day_first s =
     (case split_on CHR ''/'' s of
        [a, b, c] \<Rightarrow>
          length a = 2 \<and> length b = 2 \<and> length c = 4 \<and> list_all isdigit (a @ b @ c) \<and>
          1000 \<le> number_of c \<and> calendar_date (Date (number_of c) (number_of b) (number_of a))
      | _ \<Rightarrow> False)"

definition word_texts :: "string list" where
  \<comment> \<open>texts that are read before the format is tried\<close>
  "word_texts = [''now'', ''today'', ''NaT'', ''nat'', ''NAT'', ''nan'', ''NaN'', ''NAN'']"

fun first_text :: "pyval list \<Rightarrow> pyval option" where
  \<comment> \<open>the first cell that is neither \<open>None\<close>, \<open>nan\<close> nor the empty text\<close>
  "first_text [] = None"
| "first_text (v # vs) =
     (if v = PyNone \<or> v = NaN \<or> v = Str [] then first_text vs else Some v)"

definition read_cell :: "library \<Rightarrow> pyval \<Rightarrow> date option" where
  \<comment> \<open>one cell of a column read by \<open>%d/%m/%Y\<close> under \<open>errors="coerce"\<close>\<close>
  "read_cell lib v =
     (case v of
        PyNone \<Rightarrow> None
      | NaN \<Rightarrow> None
      | Str s \<Rightarrow>
          if s = [] then None
          else if s \<in> set word_texts then coerce lib (other_cell lib v)
          else coerce lib (strptime s)
      | _ \<Rightarrow> coerce lib (other_cell lib v))"

definition to_datetime :: "library \<Rightarrow> pyval list \<Rightarrow> nat \<Rightarrow> date option" where
  \<comment> \<open>\<open>pd.to_datetime(col, dayfirst=True, errors="coerce")\<close> at position \<open>i\<close>, \<open>None\<close> for
      \<open>NaT\<close>\<close>
  "to_datetime lib col i =
     (case first_text col of
        None \<Rightarrow> None
      | Some v \<Rightarrow>
          (case v of
             Str f \<Rightarrow> if guessed_day_first f then read_cell lib (col ! i)
                       else coerce lib (other_datetime lib col i)
           | _ \<Rightarrow> coerce lib (other_datetime lib col i)))"

definition two_digits :: "nat \<Rightarrow> string" where
  "two_digits n = [digit_char (n div 10 mod 10), digit_char (n mod 10)]"

definition strftime :: "library \<Rightarrow> date \<Rightarrow> string" where
  \<comment> \<open>\<open>strftime("%d/%m/%Y")\<close>\<close>
  "strftime lib d =
     two_digits (day d) @ ''/'' @ two_digits (month d) @ ''/'' @
     (if 1000 \<le> year d then show_nat (year d) else year_text lib (year d))"

definition dt_strftime :: "library \<Rightarrow> date option \<Rightarrow> pyval" where
  \<comment> \<open>\<open>.dt.strftime\<close> on one cell: \<open>NaT\<close> becomes \<open>nan\<close>\<close>
  "dt_strftime lib x = (case x of None \<Rightarrow> NaN | Some d \<Rightarrow> Str (strftime lib d))"

definition clean_dates :: "library \<Rightarrow> pyval list \<Rightarrow> pyval list" where
  \<comment> \<open>lines 66 and 68 (71 to 74) on one column\<close>
  "clean_dates lib col = map (\<lambda>i. dt_strftime lib (to_datetime lib col i)) [0..<length col]"

definition clean_narration :: "library \<Rightarrow> pyval \<Rightarrow> pyval" where
  \<comment> \<open>lines 79 to 81 on one cell\<close>
  "clean_narration lib v = Str (str_replace [CHR 0x0A] '' '' (astype_str lib v))"

subsection \<open>The cleaning steps\<close>

text \<open>
  Each step is guarded by \<open>if col in df.columns\<close>. The assignments to one column that
  follow each other (lines 60 to 62, 66 and 68, 71 to 74) each read what the one before
  wrote, so a step is one assignment of their composition. When the label occurs more
  than once, \<open>df[col]\<close> is a DataFrame: \<open>.str\<close> then raises \<open>AttributeError\<close> and
  \<open>pd.to_datetime\<close> raises \<open>ValueError\<close>.
\<close>

definition column_step ::
  "error \<Rightarrow> pyval \<Rightarrow> (pyval list \<Rightarrow> pyval list) \<Rightarrow> dataframe \<Rightarrow> error + dataframe" where
  \<comment> \<open>\<open>if label in df.columns: df[label] = f(df[label])\<close>\<close>
  "column_step err label f df =
     (if label \<in> set (columns df) then update_series err label f df else Inr df)"

definition clean_amount_step :: "library \<Rightarrow> string \<Rightarrow> dataframe \<Rightarrow> error + dataframe" where
  "clean_amount_step lib col = column_step AttributeError (Str col) (map (clean_amount lib))"

definition clean_date_step :: "library \<Rightarrow> string \<Rightarrow> dataframe \<Rightarrow> error + dataframe" where
  "clean_date_step lib col = column_step ValueError (Str col) (clean_dates lib)"

definition clean_narration_step :: "library \<Rightarrow> dataframe \<Rightarrow> error + dataframe" where
  "clean_narration_step lib =
     column_step AttributeError (Str ''Narration'') (map (clean_narration lib))"

fun run_steps :: "(dataframe \<Rightarrow> error + dataframe) list \<Rightarrow> dataframe \<Rightarrow> error + dataframe" where
  \<comment> \<open>statements in sequence: the first exception ends the run\<close>
  "run_steps [] df = Inr df"
| "run_steps (step # steps) df =
     (case step df of Inl e \<Rightarrow> Inl e | Inr df' \<Rightarrow> run_steps steps df')"

definition cols_to_clean :: "string list" where
  "cols_to_clean = [''Withdrawal Amount'', ''Deposit Amount'', ''Closing Balance'']"

definition clean_fields :: "library \<Rightarrow> dataframe \<Rightarrow> error + dataframe" where
  "clean_fields lib df =
     run_steps
       (map (clean_amount_step lib) cols_to_clean @
        [clean_date_step lib ''Date'', clean_date_step lib ''Value Date'',
         clean_narration_step lib])
       df"

definition reset_index :: "dataframe \<Rightarrow> dataframe" where
  \<comment> \<open>\<open>df.reset_index(drop=True)\<close>\<close>
  "reset_index df = df\<lparr>index := [0..<length (data df)]\<rparr>"

section \<open>The extraction function and the entry point\<close>

text \<open>
  What the run prints and writes is part of the result. \<open>pdfplumber.open\<close> either raises
  or gives the pages; the tables of the pages are the input of the model. The preview
  stands for what \<open>print(df.head(10))\<close> shows, and \<open>to_excel\<close> is taken to succeed.
\<close>

datatype printed = Line string | Preview dataframe | Unexpected error

record world =
  stdout :: "printed list"
  files :: "(string \<times> dataframe) list"

definition no_data_message :: string where
  "no_data_message =
     ''Error: No data found. The PDF might be an image scan or have a different layout.''"

definition extract_hdfc_statement ::
  "library \<Rightarrow> string \<Rightarrow> error + page list \<Rightarrow> printed list \<times> (error + dataframe option)" where
  \<comment> \<open>the lines printed, and the exception raised or the value returned (\<open>None\<close> or a frame)\<close>
  "extract_hdfc_statement lib pdf_path opened =
     (case opened of
        Inl e \<Rightarrow> ([], Inl e)
      | Inr pages \<Rightarrow>
          let progress = Line (''Processing '' @ show_nat (length pages) @ '' pages in '' @
                               [CHR 0x27] @ pdf_path @ [CHR 0x27] @ ''...'');
              all_transactions = collect_transactions pages
          in if all_transactions = [] then ([progress, Line no_data_message], Inr None)
             else (case resolve_header (DataFrame all_transactions) of
                     Inl e \<Rightarrow> ([progress], Inl e)
                   | Inr df \<Rightarrow>
                       (case clean_fields lib df of
                          Inl e \<Rightarrow> ([progress], Inl e)
                        | Inr df' \<Rightarrow> ([progress], Inr (Some (reset_index df'))))))"

definition pdf_filename :: string where
  "pdf_filename = ''statement.pdf''"

definition output_file :: string where
  "output_file = ''hdfc_cleaned_data.xlsx''"

definition head :: "nat \<Rightarrow> dataframe \<Rightarrow> dataframe" where
  "head n df = df\<lparr>index := take n (index df), data := take n (data df)\<rparr>"

definition main :: "library \<Rightarrow> error + page list \<Rightarrow> world \<Rightarrow> world" where
  "main lib opened w =
     (case extract_hdfc_statement lib pdf_filename opened of
        (out, Inr None) \<Rightarrow> w\<lparr>stdout := stdout w @ out\<rparr>
      | (out, Inr (Some df_result)) \<Rightarrow>
          w\<lparr>stdout := stdout w @ out @
                [Line (CHR 0x0A # ''--- Preview of Extracted Data ---''),
                 Preview (head 10 df_result),
                 Line (CHR 0x0A # ''Success! Data saved to: '' @ output_file)],
            files := files w @ [(output_file, df_result)]\<rparr>
      | (out, Inl FileNotFoundError) \<Rightarrow>
          w\<lparr>stdout := stdout w @ out @
                [Line (''Error: The file '' @ [CHR 0x27] @ pdf_filename @ [CHR 0x27] @
                       '' was not found. Please check the name.'')]\<rparr>
      | (out, Inl e) \<Rightarrow> w\<lparr>stdout := stdout w @ out @ [Unexpected e]\<rparr>)"

section \<open>Notions of the specification\<close>

text \<open>
  The specification speaks of the pattern \<open>^[\\d,]*\\.?\\d*$\<close>, of a string parsed as a
  decimal number, and of a header row. These are defined here in the specification's
  terms, independently of the code above.
\<close>

definition remove_commas :: "string \<Rightarrow> string" where
  "remove_commas s = filter (\<lambda>c. c \<noteq> CHR '','') s"

definition amount_pattern :: "string \<Rightarrow> bool" where
  \<comment> \<open>\<open>^[\\d,]*\\.?\\d*$\<close>: a run of digits and commas, then an optional point, then digits,
      up to the end of the text\<close>
  "amount_pattern s =
     (\<exists>n \<in> set [0..<Suc (length s)].
        list_all (\<lambda>c. isdigit c \<or> c = CHR '','') (take n s) \<and>
        (list_all isdigit (drop n s) \<or>
         (drop n s \<noteq> [] \<and> hd (drop n s) = CHR ''.'' \<and> list_all isdigit (tl (drop n s)))))"

primrec digits_value :: "string \<Rightarrow> nat" where
  \<comment> \<open>positional value of a digit string\<close>
  "digits_value [] = 0"
| "digits_value (c # cs) = digit_val c * 10 ^ length cs + digits_value cs"

definition decimal_value :: "string \<Rightarrow> rat" where
  \<comment> \<open>the number a decimal numeral \<open>digits\<close> or \<open>digits.digits\<close> denotes: integer part plus
      fractional part\<close>
  "decimal_value s =
     (let ip = takeWhile (\<lambda>c. c \<noteq> CHR ''.'') s;
          fp = drop 1 (dropWhile (\<lambda>c. c \<noteq> CHR ''.'') s)
      in of_nat (digits_value ip) + of_nat (digits_value fp) / 10 ^ length fp)"

definition parsed_decimal :: "string \<Rightarrow> rat" where
  \<comment> \<open>a string of the pattern as a decimal number, exactly; one without any digit does
      not parse, which the specification turns into 0.0\<close>
  "parsed_decimal s = (if list_ex isdigit s then decimal_value s else 0)"

definition digit_count :: "string \<Rightarrow> nat" where
  "digit_count s = length (filter isdigit s)"

definition is_header_row :: "string list \<Rightarrow> bool" where
  \<comment> \<open>column 0 contains "Date" and column 1 contains "Narration", letter case ignored\<close>
  "is_header_row row =
     (sublist (map lower ''Date'') (map lower (row ! 0)) \<and>
      sublist (map lower ''Narration'') (map lower (row ! 1)))"

definition pad_row :: "nat \<Rightarrow> string list \<Rightarrow> pyval list" where
  \<comment> \<open>a row of text as a row of a frame with \<open>n\<close> columns\<close>
  "pad_row n row = map Str row @ replicate (n - length row) PyNone"

definition widest :: "string list list \<Rightarrow> nat" where
  "widest rows = foldr max (map length rows) 0"

definition cleaned_labels :: "pyval set" where
  "cleaned_labels = Str ` (set cols_to_clean \<union> {''Date'', ''Value Date'', ''Narration''})"

definition same_shape :: "dataframe \<Rightarrow> dataframe \<Rightarrow> bool" where
  \<comment> \<open>same column labels, same index, same number of rows, rows of the same lengths\<close>
  "same_shape a b =
     (columns b = columns a \<and> index b = index a \<and> map length (data b) = map length (data a))"

type_synonym step_spec = "error \<times> pyval \<times> (pyval list \<Rightarrow> pyval list)"

definition step_of :: "step_spec \<Rightarrow> dataframe \<Rightarrow> error + dataframe" where
  "step_of sp = (case sp of (err, label, f) \<Rightarrow> column_step err label f)"

definition cleaning_specs :: "library \<Rightarrow> step_spec list" where
  \<comment> \<open>the cleaning steps of \<open>clean_fields\<close>, in order: error raised on a repeated label,
      label, function applied to the column\<close>
  "cleaning_specs lib =
     [(AttributeError, Str ''Withdrawal Amount'', map (clean_amount lib)),
      (AttributeError, Str ''Deposit Amount'', map (clean_amount lib)),
      (AttributeError, Str ''Closing Balance'', map (clean_amount lib)),
      (ValueError, Str ''Date'', clean_dates lib),
      (ValueError, Str ''Value Date'', clean_dates lib),
      (AttributeError, Str ''Narration'', map (clean_narration lib))]"

definition length_preserving :: "step_spec \<Rightarrow> bool" where
  "length_preserving sp = (case sp of (err, label, f) \<Rightarrow> \<forall>col. length (f col) = length col)"

subsection \<open>Examples\<close>

text \<open>
  The closed examples below need a value for the parameters of the library. Their cells
  are dates \<open>DD/MM/YYYY\<close> of this century and numerals of at most 15 digits, so that no
  parameter is consulted: each evaluation is proved for every library first.
\<close>

definition plain_library :: library where
  "plain_library =
     \<lparr>float_str = (\<lambda>q. []), long_numeral = (\<lambda>s. NaN), other_numeric = (\<lambda>s. NaN),
      keeps_far = (\<lambda>d. False), year_text = (\<lambda>y. []), other_cell = (\<lambda>v. None),
      other_datetime = (\<lambda>col i. None)\<rparr>"

text \<open>
  The scenario of the specification: a table with the header row and one transaction, the
  frame after header resolution, and the frame after cleaning.
\<close>

definition example_pages :: "page list" where
  "example_pages =
     [[[[Some ''Date'', Some ''Narration'', Some ''Chq./Ref.No.'', Some ''Value Date'',
         Some ''Withdrawal Amount'', Some ''Deposit Amount'', Some ''Closing Balance''],
        [Some ''01/04/2024'', Some (''Salary Credit'' @ [CHR 0x0A] @ ''ABC Corp''), Some ''REF1'',
         Some ''01/04/2024'', Some [], Some ''5,000.00'', Some ''10,000.00'']]]]"

definition example_frame :: dataframe where
  "example_frame =
     \<lparr>columns = map Str headers, index = [1],
      data = [[Str ''01/04/2024'', Str (''Salary Credit'' @ [CHR 0x0A] @ ''ABC Corp''), Str ''REF1'',
               Str ''01/04/2024'', Str [], Str ''5,000.00'', Str ''10,000.00'']]\<rparr>"

definition example_cleaned :: dataframe where
  "example_cleaned =
     \<lparr>columns = map Str headers, index = [1],
      data = [[Str ''01/04/2024'', Str ''Salary Credit ABC Corp'', Str ''REF1'',
               Str ''01/04/2024'', Num 0, Num 5000, Num 10000]]\<rparr>"

definition example_rows :: "string list list" where
  \<comment> \<open>the normalised rows of \<open>example_pages\<close>\<close>
  "example_rows =
     [[''Date'', ''Narration'', ''Chq./Ref.No.'', ''Value Date'',
       ''Withdrawal Amount'', ''Deposit Amount'', ''Closing Balance''],
      [''01/04/2024'', ''Salary Credit'' @ [CHR 0x0A] @ ''ABC Corp'', ''REF1'',
       ''01/04/2024'', [], ''5,000.00'', ''10,000.00'']]"

definition wide_rows :: "string list list" where
  \<comment> \<open>a table of 8 columns, the eighth empty: the header row and a transaction\<close>
  "wide_rows =
     [[''Date'', ''Narration'', ''Chq./Ref.No.'', ''Value Date'',
       ''Withdrawal Amount'', ''Deposit Amount'', ''Closing Balance'', []],
      [''01/04/2024'', ''ATM'', [], ''01/04/2024'', ''500.00'', [], ''9,500.00'', []]]"

definition wide_pages :: "page list" where
  \<comment> \<open>one page, one table of 8 columns, the eighth empty: the header row and a
      transaction\<close>
  "wide_pages =
     [[[[Some ''Date'', Some ''Narration'', Some ''Chq./Ref.No.'', Some ''Value Date'',
         Some ''Withdrawal Amount'', Some ''Deposit Amount'', Some ''Closing Balance'', None],
        [Some ''02/04/2024'', Some ''POS 4111'', None, Some ''02/04/2024'',
         Some ''120.00'', None, Some ''9,380.00'', None]]]]"

definition signed_frame :: dataframe where
  \<comment> \<open>a frame after header resolution with a sign, a fraction that is no binary fraction,
      and a suffix in its amounts\<close>
  "signed_frame =
     \<lparr>columns = map Str headers, index = [1],
      data = [[Str ''01/04/2024'', Str ''ATM'', Str [], Str ''01/04/2024'', Str ''-500.00'',
               Str ''0.10'', Str ''9,500.00 Cr'']]\<rparr>"

definition signed_cleaned :: dataframe where
  "signed_cleaned =
     \<lparr>columns = map Str headers, index = [1],
      data = [[Str ''01/04/2024'', Str ''ATM'', Str [], Str ''01/04/2024'', Num 500,
               Num (3602879701896397 / 36028797018963968), Num 9500]]\<rparr>"



section \<open>Row normalisation: properties\<close>

lemma rows_loop_eq:
  "rows_loop acc t = acc @ map (map clean_cell) (filter (\<lambda>row. 7 \<le> length row) t)"
  by (induction t arbitrary: acc) (auto simp: Let_def)

lemma tables_loop_eq:
  "tables_loop acc p = acc @ map (map clean_cell) (filter (\<lambda>row. 7 \<le> length row) (concat p))"
  by (induction p arbitrary: acc) (auto simp: rows_loop_eq)

lemma pages_loop_eq:
  "pages_loop acc ps =
     acc @ map (map clean_cell) (filter (\<lambda>row. 7 \<le> length row) (concat (concat ps)))"
  by (induction ps arbitrary: acc) (auto simp: tables_loop_eq)

lemma collect_transactions_eq:
  "collect_transactions pages =
     map (map clean_cell) (filter (\<lambda>row. 7 \<le> length row) (concat (concat pages)))"
  by (simp add: collect_transactions_def pages_loop_eq)

lemma strip_decomp:
  "\<exists>pre post. s = pre @ strip s @ post \<and> list_all isspace pre \<and> list_all isspace post"
proof -
  let ?a = "takeWhile isspace s"
  let ?m = "dropWhile isspace s"
  let ?b = "rev (takeWhile isspace (rev ?m))"
  have "rev ?m = takeWhile isspace (rev ?m) @ dropWhile isspace (rev ?m)" by simp
  then have "?m = strip s @ ?b" unfolding strip_def
    by (metis rev_append rev_rev_ident)
  then have "s = ?a @ strip s @ ?b" by (metis takeWhile_dropWhile_id)
  moreover have "list_all isspace ?a" by (simp add: list_all_iff) (meson set_takeWhileD)
  moreover have "list_all isspace ?b" by (simp add: list_all_iff) (meson set_takeWhileD)
  ultimately show ?thesis by blast
qed

lemma strip_hd: "strip s \<noteq> [] \<Longrightarrow> \<not> isspace (hd (strip s))"
proof -
  assume ne: "strip s \<noteq> []"
  let ?m = "dropWhile isspace s"
  have m: "?m \<noteq> []" using ne by (cases "dropWhile isspace s") (simp_all add: strip_def)
  have "rev ?m = takeWhile isspace (rev ?m) @ dropWhile isspace (rev ?m)" by simp
  then have "?m = strip s @ rev (takeWhile isspace (rev ?m))" unfolding strip_def
    by (metis rev_append rev_rev_ident)
  then have "hd ?m = hd (strip s)" using ne by (metis hd_append2)
  moreover have "\<not> isspace (hd ?m)" using m by (rule hd_dropWhile)
  ultimately show ?thesis by simp
qed

lemma strip_last: "strip s \<noteq> [] \<Longrightarrow> \<not> isspace (last (strip s))"
proof -
  assume ne: "strip s \<noteq> []"
  let ?r = "dropWhile isspace (rev (dropWhile isspace s))"
  have r: "?r \<noteq> []" using ne by (simp add: strip_def)
  have "last (strip s) = hd ?r" using r by (simp add: strip_def last_rev)
  moreover have "\<not> isspace (hd ?r)" using r by (rule hd_dropWhile)
  ultimately show ?thesis by simp
qed

lemma clean_cell_Some: "clean_cell (Some s) = strip s"
  by (simp add: clean_cell_def strip_def)

text \<open>
  Claim C3. The rows collected from the pages are exactly the raw rows with at least 7
  cells, in their order of reading (page, then table, then row), each cell cleaned; no
  collected row has fewer than 7 cells. Cleaning a missing cell gives the empty string;
  cleaning a text cell removes whitespace at both ends and nothing else: what is left
  neither starts nor ends with whitespace.
\<close>

theorem collect_transactions_normalized:
  "collect_transactions pages =
     map (map clean_cell) (filter (\<lambda>row. 7 \<le> length row) (concat (concat pages)))
   \<and> (\<forall>row \<in> set (collect_transactions pages). 7 \<le> length row)
   \<and> clean_cell None = []
   \<and> (\<exists>pre post. s = pre @ clean_cell (Some s) @ post \<and>
         list_all isspace pre \<and> list_all isspace post)
   \<and> (clean_cell (Some s) \<noteq> [] \<longrightarrow>
         \<not> isspace (hd (clean_cell (Some s))) \<and> \<not> isspace (last (clean_cell (Some s))))"
proof -
  have "\<forall>row \<in> set (collect_transactions pages). 7 \<le> length row"
    by (auto simp: collect_transactions_eq)
  moreover have "clean_cell None = []" by (simp add: clean_cell_def)
  ultimately show ?thesis
    using collect_transactions_eq [of pages] strip_decomp [of s] strip_hd [of s] strip_last [of s]
    by (simp only: clean_cell_Some) blast
qed

theorem collect_transactions_normalized_witness:
  "collect_transactions
     [[[[Some ''  01/04/2024'', Some ''UPI '', None, Some [], Some ''5.00'', None, Some ''1'']],
       [[Some ''carried forward'', None]]],
      [[[None, None, None, None, None, None, None, Some ''x '']]]] =
     [[''01/04/2024'', ''UPI'', [], [], ''5.00'', [], ''1''], [[], [], [], [], [], [], [], ''x'']]
   \<and> clean_cell (Some ''  UPI '') = ''UPI''
   \<and> \<not> isspace (hd (clean_cell (Some ''  UPI ''))) \<and> \<not> isspace (last (clean_cell (Some ''  UPI '')))"
  using collect_transactions_normalized
    [of "[[[[Some ''  01/04/2024'', Some ''UPI '', None, Some [], Some ''5.00'', None, Some ''1'']],
       [[Some ''carried forward'', None]]],
      [[[None, None, None, None, None, None, None, Some ''x '']]]]" "''  UPI ''"]
  by (simp add: clean_cell_def strip_def isspace_def)

section \<open>No data\<close>

text \<open>
  Claim C5. When no row survives normalisation, the extraction function prints the
  progress line and the no-data message and returns \<open>None\<close> without raising; the entry
  point then prints nothing more and writes no file.
\<close>

theorem no_data_returns_none:
  "collect_transactions pages = [] \<Longrightarrow>
     extract_hdfc_statement lib pdf_path (Inr pages) =
       ([Line (''Processing '' @ show_nat (length pages) @ '' pages in '' @
               [CHR 0x27] @ pdf_path @ [CHR 0x27] @ ''...''),
         Line no_data_message], Inr None)
     \<and> files (main lib (Inr pages) w) = files w
     \<and> stdout (main lib (Inr pages) w) =
         stdout w @ [Line (''Processing '' @ show_nat (length pages) @ '' pages in '' @
               [CHR 0x27] @ pdf_filename @ [CHR 0x27] @ ''...''),
         Line no_data_message]"
  by (simp add: extract_hdfc_statement_def main_def Let_def)

theorem no_data_returns_none_witness:
  "collect_transactions [[], [[[Some ''scan'']]]] = []
   \<and> extract_hdfc_statement plain_library ''a.pdf'' (Inr [[], [[[Some ''scan'']]]]) =
       ([Line (''Processing 2 pages in '' @ [CHR 0x27] @ ''a.pdf'' @ [CHR 0x27] @ ''...''),
         Line no_data_message], Inr None)
   \<and> files (main plain_library (Inr [[], [[[Some ''scan'']]]]) \<lparr>stdout = [], files = []\<rparr>) = []"
proof -
  have h: "collect_transactions [[], [[[Some ''scan'']]]] = []"
    by (simp add: collect_transactions_def)
  have s: "show_nat (Suc (Suc 0)) = ''2''" by code_simp
  show ?thesis
    using h no_data_returns_none [OF h, of plain_library "''a.pdf''" "\<lparr>stdout = [], files = []\<rparr>"]
    by (simp add: s)
qed

section \<open>Field cleaning: one column at a time\<close>

lemma length_setcol: "length vs = length rows \<Longrightarrow> length (setcol j vs rows) = length rows"
  by (simp add: setcol_def)

lemma nth_setcol:
  "length vs = length rows \<Longrightarrow> i < length rows \<Longrightarrow> setcol j vs rows ! i = (rows ! i)[j := vs ! i]"
  by (simp add: setcol_def)

lemma map_length_setcol:
  "length vs = length rows \<Longrightarrow> map length (setcol j vs rows) = map length rows"
  by (rule nth_equalityI) (simp_all add: length_setcol nth_setcol)

lemma positions_singleD:
  "positions label df = [j] \<Longrightarrow> j < length (columns df) \<and> columns df ! j = label"
proof -
  assume "positions label df = [j]"
  then have "j \<in> set (filter (\<lambda>j. columns df ! j = label) [0..<length (columns df)])"
    by (simp add: positions_def)
  then show ?thesis by simp
qed

lemma positions_unique:
  assumes "positions label df = [j]" and "k < length (columns df)" and "columns df ! k = label"
  shows "k = j"
proof -
  have "k \<in> set (positions label df)" using assms(2,3) by (simp add: positions_def)
  then show ?thesis using assms(1) by simp
qed

lemma update_series_Inr:
  assumes "update_series err label f df = Inr df'"
  obtains j where "positions label df = [j]"
    and "df' = df\<lparr>data := setcol j (f (getcol j (data df))) (data df)\<rparr>"
  using assms unfolding update_series_def
  by (auto split: list.splits)

lemma length_getcol: "length (getcol j rows) = length rows"
  by (simp add: getcol_def)

lemma update_series_shape:
  assumes "update_series err label f df = Inr df'"
    and "\<And>col. length (f col) = length col"
  shows "same_shape df df'"
proof -
  from assms(1) obtain j where
    df': "df' = df\<lparr>data := setcol j (f (getcol j (data df))) (data df)\<rparr>"
    by (rule update_series_Inr)
  have "length (f (getcol j (data df))) = length (data df)"
    by (simp add: assms(2) length_getcol)
  then show ?thesis by (simp add: same_shape_def df' map_length_setcol)
qed

lemma update_series_other:
  assumes "update_series err label f df = Inr df'"
    and "\<And>col. length (f col) = length col"
    and "columns df ! k \<noteq> label" and "i < length (data df)"
  shows "data df' ! i ! k = data df ! i ! k"
proof -
  from assms(1) obtain j where pos: "positions label df = [j]"
    and df': "df' = df\<lparr>data := setcol j (f (getcol j (data df))) (data df)\<rparr>"
    by (rule update_series_Inr)
  have len: "length (f (getcol j (data df))) = length (data df)"
    by (simp add: assms(2) length_getcol)
  have "k \<noteq> j" using positions_singleD [OF pos] assms(3) by auto
  then show ?thesis using assms(4) len by (simp add: df' nth_setcol)
qed

lemma update_series_this:
  assumes "update_series err label f df = Inr df'"
    and "\<And>col. length (f col) = length col"
    and "k < length (columns df)" and "columns df ! k = label"
    and "i < length (data df)" and "k < length (data df ! i)"
  shows "data df' ! i ! k = f (getcol k (data df)) ! i"
proof -
  from assms(1) obtain j where pos: "positions label df = [j]"
    and df': "df' = df\<lparr>data := setcol j (f (getcol j (data df))) (data df)\<rparr>"
    by (rule update_series_Inr)
  have kj: "k = j" using positions_unique [OF pos assms(3,4)] .
  have len: "length (f (getcol j (data df))) = length (data df)"
    by (simp add: assms(2) length_getcol)
  show ?thesis using assms(5,6) len by (simp add: df' nth_setcol kj)
qed


lemma clean_fields_specs: "clean_fields lib = run_steps (map step_of (cleaning_specs lib))"
  by (rule ext)
     (simp add: clean_fields_def cleaning_specs_def step_of_def cols_to_clean_def
        clean_amount_step_def clean_date_step_def clean_narration_step_def)

lemma same_shape_refl: "same_shape a a"
  by (simp add: same_shape_def)

lemma same_shape_trans: "same_shape a b \<Longrightarrow> same_shape b c \<Longrightarrow> same_shape a c"
  by (simp add: same_shape_def)

lemma same_shape_rows: "same_shape a b \<Longrightarrow> length (data b) = length (data a)"
  unfolding same_shape_def by (metis length_map)

lemma same_shape_row_length:
  "same_shape a b \<Longrightarrow> i < length (data a) \<Longrightarrow> length (data b ! i) = length (data a ! i)"
  unfolding same_shape_def by (metis length_map nth_map)

lemma same_shape_wf: "same_shape a b \<Longrightarrow> wf_df a \<Longrightarrow> wf_df b"
proof -
  assume s: "same_shape a b" and w: "wf_df a"
  have "\<forall>row \<in> set (data b). length row = length (columns b)"
  proof
    fix row assume "row \<in> set (data b)"
    then obtain i where i: "i < length (data b)" and r: "row = data b ! i"
      by (metis in_set_conv_nth)
    have ia: "i < length (data a)" using i same_shape_rows [OF s] by simp
    have "length (data a ! i) = length (columns a)"
      using w ia by (simp add: wf_df_def list_all_iff)
    then show "length row = length (columns b)"
      using same_shape_row_length [OF s ia] s r by (simp add: same_shape_def)
  qed
  then show ?thesis by (simp add: wf_df_def list_all_iff)
qed

lemma column_step_shape:
  assumes "column_step err label f df = Inr df'" and "\<And>col. length (f col) = length col"
  shows "same_shape df df'"
  using assms update_series_shape [of err label f df df']
  by (auto simp: column_step_def same_shape_refl split: if_splits)

lemma column_step_other:
  assumes "column_step err label f df = Inr df'" and "\<And>col. length (f col) = length col"
    and "columns df ! k \<noteq> label" and "i < length (data df)"
  shows "data df' ! i ! k = data df ! i ! k"
  using assms update_series_other [of err label f df df' k i]
  by (auto simp: column_step_def split: if_splits)

lemma column_step_this:
  assumes "column_step err label f df = Inr df'" and "\<And>col. length (f col) = length col"
    and "k < length (columns df)" and "columns df ! k = label"
    and "i < length (data df)" and "k < length (data df ! i)"
  shows "data df' ! i ! k = f (getcol k (data df)) ! i"
proof -
  have "label \<in> set (columns df)" using assms(3,4) by (metis nth_mem)
  then have "update_series err label f df = Inr df'" using assms(1) by (simp add: column_step_def)
  then show ?thesis using assms(2-6) by (rule update_series_this)
qed

lemma step_of_simp: "step_of (err, label, f) = column_step err label f"
  by (simp add: step_of_def)

lemma run_specs_shape:
  assumes "run_steps (map step_of specs) df = Inr df'" and "list_all length_preserving specs"
  shows "same_shape df df'"
  using assms
proof (induction specs arbitrary: df)
  case Nil
  then show ?case by (simp add: same_shape_refl)
next
  case (Cons sp specs)
  obtain err label f where sp: "sp = (err, label, f)" by (cases sp)
  from Cons.prems obtain a where a: "column_step err label f df = Inr a"
    and rest: "run_steps (map step_of specs) a = Inr df'"
    by (auto simp: sp step_of_simp split: sum.splits)
  have lp: "\<And>col. length (f col) = length col"
    using Cons.prems(2) by (simp add: sp length_preserving_def)
  have "same_shape df a" using a lp by (rule column_step_shape)
  moreover have "same_shape a df'" using Cons.IH [OF rest] Cons.prems(2) by simp
  ultimately show ?case by (rule same_shape_trans)
qed

lemma run_specs_other:
  assumes "run_steps (map step_of specs) df = Inr df'" and "list_all length_preserving specs"
    and "columns df ! k \<notin> (\<lambda>sp. fst (snd sp)) ` set specs" and "i < length (data df)"
  shows "data df' ! i ! k = data df ! i ! k"
  using assms
proof (induction specs arbitrary: df)
  case Nil
  then show ?case by simp
next
  case (Cons sp specs)
  obtain err label f where sp: "sp = (err, label, f)" by (cases sp)
  from Cons.prems obtain a where a: "column_step err label f df = Inr a"
    and rest: "run_steps (map step_of specs) a = Inr df'"
    by (auto simp: sp step_of_simp split: sum.splits)
  have lp: "\<And>col. length (f col) = length col"
    using Cons.prems(2) by (simp add: sp length_preserving_def)
  have sh: "same_shape df a" using a lp by (rule column_step_shape)
  have ne: "columns df ! k \<noteq> label" using Cons.prems(3) by (auto simp: sp)
  have 1: "data a ! i ! k = data df ! i ! k"
    using a lp ne Cons.prems(4) by (rule column_step_other)
  have "columns a = columns df" using sh by (simp add: same_shape_def)
  then have "columns a ! k \<notin> (\<lambda>sp. fst (snd sp)) ` set specs" using Cons.prems(3) by simp
  moreover have "i < length (data a)" using same_shape_rows [OF sh] Cons.prems(4) by simp
  ultimately have "data df' ! i ! k = data a ! i ! k"
    using Cons.IH [OF rest] Cons.prems(2) by simp
  then show ?case using 1 by simp
qed

lemma run_specs_this:
  assumes "run_steps (map step_of specs) df = Inr df'" and "list_all length_preserving specs"
    and "distinct (map (\<lambda>sp. fst (snd sp)) specs)" and "(err, label, f) \<in> set specs"
    and "wf_df df" and "k < length (columns df)" and "columns df ! k = label"
    and "i < length (data df)"
  shows "data df' ! i ! k = f (getcol k (data df)) ! i"
  using assms
proof (induction specs arbitrary: df)
  case Nil
  then show ?case by simp
next
  case (Cons sp specs)
  obtain err' label' f' where sp: "sp = (err', label', f')" by (cases sp)
  from Cons.prems(1) obtain a where a: "column_step err' label' f' df = Inr a"
    and rest: "run_steps (map step_of specs) a = Inr df'"
    by (auto simp: sp step_of_simp split: sum.splits)
  have lp: "\<And>col. length (f' col) = length col"
    using Cons.prems(2) by (simp add: sp length_preserving_def)
  have lps: "list_all length_preserving specs" using Cons.prems(2) by simp
  have sh: "same_shape df a" using a lp by (rule column_step_shape)
  have ca: "columns a = columns df" using sh by (simp add: same_shape_def)
  have ia: "i < length (data a)" using same_shape_rows [OF sh] Cons.prems(8) by simp
  have row: "k < length (data df ! i)"
    using Cons.prems(5,6,8) by (simp add: wf_df_def list_all_iff)
  show ?case
  proof (cases "label' = label")
    case True
    have "label \<notin> (\<lambda>sp. fst (snd sp)) ` set specs"
      using Cons.prems(3) True by (simp add: sp)
    then have fe: "(err, label, f) \<notin> set specs" by force
    then have f: "f' = f" using Cons.prems(4) by (simp add: sp)
    have "data a ! i ! k = f (getcol k (data df)) ! i"
      using a lp Cons.prems(6) Cons.prems(7) [folded True] Cons.prems(8) row
      unfolding f [symmetric] by (rule column_step_this)
    moreover have "data df' ! i ! k = data a ! i ! k"
      using rest lps \<open>label \<notin> (\<lambda>sp. fst (snd sp)) ` set specs\<close> ia
      by (intro run_specs_other) (simp_all add: ca Cons.prems(7))
    ultimately show ?thesis by simp
  next
    case False
    then have mem: "(err, label, f) \<in> set specs" using Cons.prems(4) by (simp add: sp)
    have "\<And>i. i < length (data df) \<Longrightarrow> data a ! i ! k = data df ! i ! k"
      using a lp False Cons.prems(7) by (intro column_step_other [of err' label' f' df a]) simp_all
    then have gc: "getcol k (data a) = getcol k (data df)"
      using same_shape_rows [OF sh] by (auto simp: getcol_def intro: nth_equalityI)
    have "data df' ! i ! k = f (getcol k (data a)) ! i"
      using rest lps Cons.prems(3) mem same_shape_wf [OF sh Cons.prems(5)] ia
      by (intro Cons.IH) (simp_all add: ca Cons.prems(6,7))
    then show ?thesis by (simp add: gc)
  qed
qed

section \<open>Field cleaning: the whole sequence\<close>

lemma length_clean_dates: "length (clean_dates lib col) = length col"
  by (simp add: clean_dates_def)

lemma cleaning_specs_length_preserving: "list_all length_preserving (cleaning_specs lib)"
  by (simp add: cleaning_specs_def length_preserving_def length_clean_dates)

lemma cleaning_specs_distinct: "distinct (map (\<lambda>sp. fst (snd sp)) (cleaning_specs lib))"
  by (simp add: cleaning_specs_def)

lemma cleaning_specs_labels: "(\<lambda>sp. fst (snd sp)) ` set (cleaning_specs lib) = cleaned_labels"
  by (auto simp: cleaning_specs_def cleaned_labels_def cols_to_clean_def)

lemma clean_fields_shape: "clean_fields lib df = Inr df' \<Longrightarrow> same_shape df df'"
  unfolding clean_fields_specs
  by (rule run_specs_shape [OF _ cleaning_specs_length_preserving])

lemma clean_fields_other:
  assumes "clean_fields lib df = Inr df'" and "columns df ! k \<notin> cleaned_labels"
    and "i < length (data df)"
  shows "data df' ! i ! k = data df ! i ! k"
  using assms unfolding clean_fields_specs cleaning_specs_labels [of lib, symmetric]
  by (rule run_specs_other [OF _ cleaning_specs_length_preserving])

lemma clean_fields_this:
  assumes "clean_fields lib df = Inr df'" and "(err, label, f) \<in> set (cleaning_specs lib)"
    and "wf_df df" and "k < length (columns df)" and "columns df ! k = label"
    and "i < length (data df)"
  shows "data df' ! i ! k = f (getcol k (data df)) ! i"
  using assms unfolding clean_fields_specs
  by (rule run_specs_this [OF _ cleaning_specs_length_preserving cleaning_specs_distinct])

lemma clean_fields_amount_cell:
  assumes "clean_fields lib df = Inr df'" and "wf_df df" and "k < length (columns df)"
    and "columns df ! k \<in> Str ` set cols_to_clean" and "i < length (data df)"
  shows "data df' ! i ! k = clean_amount lib (data df ! i ! k)"
proof -
  have "(AttributeError, columns df ! k, map (clean_amount lib)) \<in> set (cleaning_specs lib)"
    using assms(4) by (auto simp: cleaning_specs_def cols_to_clean_def)
  then have "data df' ! i ! k = map (clean_amount lib) (getcol k (data df)) ! i"
    using assms by (intro clean_fields_this [of lib df df' AttributeError]) simp_all
  then show ?thesis using assms(5) by (simp add: getcol_def)
qed


lemma clean_fields_narration_cell:
  assumes "clean_fields lib df = Inr df'" and "wf_df df" and "k < length (columns df)"
    and "columns df ! k = Str ''Narration''" and "i < length (data df)"
  shows "data df' ! i ! k = clean_narration lib (data df ! i ! k)"
proof -
  have "(AttributeError, columns df ! k, map (clean_narration lib)) \<in> set (cleaning_specs lib)"
    using assms(4) by (auto simp: cleaning_specs_def)
  then have "data df' ! i ! k = map (clean_narration lib) (getcol k (data df)) ! i"
    using assms by (intro clean_fields_this [of lib df df' AttributeError]) simp_all
  then show ?thesis using assms(5) by (simp add: getcol_def)
qed

section \<open>The extraction function: properties\<close>

lemma extract_Some:
  assumes "extract_hdfc_statement lib pdf_path (Inr pages) = (out, Inr (Some df))"
  obtains df0 df1 where "resolve_header (DataFrame (collect_transactions pages)) = Inr df0"
    and "clean_fields lib df0 = Inr df1" and "df = reset_index df1"
  using assms unfolding extract_hdfc_statement_def Let_def
  by (auto split: if_splits sum.splits)

lemma select_memD: "x \<in> set (select flags xs) \<Longrightarrow> x \<in> set xs"
  by (auto simp: select_def dest: set_zip_rightD)

lemma resolve_header_rows:
  assumes "resolve_header df = Inr df0"
  shows "set (data df0) \<subseteq> set (data df)"
  using assms unfolding resolve_header_def Let_def
  by (auto split: option.splits if_splits list.splits dest: select_memD)

section \<open>Binary floating point: properties\<close>

lemma floor_rat_numeral:
  "\<lfloor>(numeral a :: rat) / numeral b\<rfloor> = numeral a div numeral b"
  using floor_divide_of_int_eq [of "numeral a" "numeral b", where ?'a = rat] by simp

lemma ceiling_rat_numeral:
  "\<lceil>(numeral a :: rat) / numeral b\<rceil> = - ((- numeral a) div numeral b)"
  using floor_divide_of_int_eq [of "- numeral a" "numeral b", where ?'a = rat]
  by (simp add: ceiling_def)

lemma bit_length_0: "bit_length 0 = 0"
  by (subst bit_length.simps) simp

lemma bit_length_1: "bit_length (Suc 0) = Suc 0"
  by (subst bit_length.simps) (simp add: bit_length_0)

lemma bit_length_numeral: "bit_length (numeral k) = Suc (bit_length (numeral k div 2))"
  by (subst bit_length.simps) simp

lemma pow2_pos: "0 < pow2 e"
  by (simp add: pow2_def)

lemma round_half_even_nonneg: "0 \<le> x \<Longrightarrow> 0 \<le> round_half_even x"
  by (auto simp: round_half_even_def Let_def intro: add_nonneg_nonneg)

lemma round_b64_nonneg: "0 \<le> q \<Longrightarrow> 0 \<le> round_b64 q"
proof -
  assume q: "0 \<le> q"
  show ?thesis
  proof (cases "q = 0")
    case True
    then show ?thesis by (simp add: round_b64_def)
  next
    case False
    let ?u = "pow2 (binary_exponent \<bar>q\<bar> - 52)"
    have u: "0 < ?u" by (rule pow2_pos)
    have "0 \<le> \<bar>q\<bar> / ?u" using u by simp
    then have "0 \<le> round_half_even (\<bar>q\<bar> / ?u)" by (rule round_half_even_nonneg)
    then have "0 \<le> sgn q * of_int (round_half_even (\<bar>q\<bar> / ?u)) * ?u"
      using q u by (simp add: sgn_if)
    then show ?thesis using False by (simp add: round_b64_def Let_def)
  qed
qed

lemma pow2_power_int: "pow2 e = 2 powi e"
  by (simp add: pow2_def power_int_def power_inverse [symmetric] inverse_eq_divide power_one_over)

lemma pow2_Suc: "pow2 (e + 1) = 2 * pow2 e"
  by (simp add: pow2_power_int power_int_add)

lemma pow2_nat: "pow2 (int n) = 2 ^ n"
  by (simp add: pow2_def)

lemma pow2_neg_nat: "pow2 (- int n) = 1 / 2 ^ n"
  by (simp add: pow2_power_int power_int_minus inverse_eq_divide)

lemma bit_length_bounds:
  "0 < n \<Longrightarrow> 2 ^ (bit_length n - 1) \<le> n \<and> n < 2 ^ bit_length n"
proof (induction n rule: bit_length.induct)
  case (1 n)
  show ?case
  proof (cases "n div 2 = 0")
    case True
    with 1(2) have n: "n = 1" by (simp add: div_eq_0_iff) 
    have "bit_length 1 = 1" by (simp add: bit_length_1)
    then show ?thesis using n by simp
  next
    case False
    then have "0 < n div 2" by simp
    with 1 have ih: "2 ^ (bit_length (n div 2) - 1) \<le> n div 2" "n div 2 < 2 ^ bit_length (n div 2)"
      by simp_all
    have pos: "0 < bit_length (n div 2)"
      using False by (subst bit_length.simps) simp
    have b: "bit_length n = Suc (bit_length (n div 2))"
      using 1(2) by (subst bit_length.simps) simp
    have "2 ^ (bit_length n - 1) = 2 * 2 ^ (bit_length (n div 2) - 1)"
      using pos b by (cases "bit_length (n div 2)") simp_all
    also have "\<dots> \<le> 2 * (n div 2)" using ih(1) by simp
    also have "\<dots> \<le> n" by simp
    finally have lo: "2 ^ (bit_length n - 1) \<le> n" .
    have "n < 2 * (n div 2) + 2" by presburger
    also have "\<dots> \<le> 2 * 2 ^ bit_length (n div 2)" using ih(2) by simp
    finally have hi: "n < 2 ^ bit_length n" using b by simp
    show ?thesis using lo hi by simp
  qed
qed

lemma bit_length_pos: "0 < n \<Longrightarrow> 0 < bit_length n"
  by (subst bit_length.simps) simp

lemma binary_exponent_bounds:
  assumes "0 < q"
  shows "pow2 (binary_exponent q) \<le> q \<and> q < pow2 (binary_exponent q + 1)"
proof (cases "1 \<le> q")
  case True
  let ?n = "nat \<lfloor>q\<rfloor>"
  have n: "0 < ?n" using True by simp
  note b = bit_length_bounds [OF n]
  have pos: "0 < bit_length ?n" using n by (rule bit_length_pos)
  have e: "binary_exponent q = int (bit_length ?n - 1)"
    using True pos by (simp add: binary_exponent_def)
  have e1: "binary_exponent q + 1 = int (bit_length ?n)"
    using e pos by simp
  have nn: "rat_of_nat ?n = rat_of_int \<lfloor>q\<rfloor>" using True by (simp add: of_nat_nat)
  have fl: "rat_of_nat ?n \<le> q" unfolding nn by (rule of_int_floor_le)
  have fu: "q < rat_of_nat ?n + 1" unfolding nn using floor_correct [of q] by simp
  have "(2::rat) ^ (bit_length ?n - 1) = rat_of_nat (2 ^ (bit_length ?n - 1))" by simp
  also have "\<dots> \<le> rat_of_nat ?n"
    unfolding of_nat_le_iff by (rule b [THEN conjunct1])
  also note fl
  finally have lo: "pow2 (binary_exponent q) \<le> q" unfolding e pow2_nat .
  have "Suc ?n \<le> 2 ^ bit_length ?n" by (rule Suc_leI) (rule b [THEN conjunct2])
  then have "rat_of_nat (Suc ?n) \<le> rat_of_nat (2 ^ bit_length ?n)"
    unfolding of_nat_le_iff .
  then have "rat_of_nat ?n + 1 \<le> 2 ^ bit_length ?n"
    unfolding of_nat_Suc of_nat_power of_nat_numeral by linarith
  with fu have hi: "q < pow2 (binary_exponent q + 1)" unfolding e1 pow2_nat by (rule less_le_trans)
  show ?thesis using lo hi by simp
next
  case False
  then have q1: "q < 1" by simp
  let ?c = "\<lceil>1 / q\<rceil>"
  let ?n = "nat ?c - 1"
  have iq: "1 < 1 / q" using assms q1 by simp
  then have c2: "2 \<le> ?c" by (simp add: le_ceiling_iff)
  have n: "0 < ?n" using c2 by linarith
  note b = bit_length_bounds [OF n]
  let ?k = "bit_length ?n"
  have pos: "0 < ?k" using n by (rule bit_length_pos)
  have e: "binary_exponent q = - int ?k"
    using False by (simp add: binary_exponent_def)
  have e1: "binary_exponent q + 1 = - int (?k - 1)"
    using e pos by simp
  have "int ?n = ?c - 1" using c2 by linarith
  then have "rat_of_int (int ?n) = rat_of_int (?c - 1)" by (rule arg_cong)
  then have cn: "rat_of_int ?c = rat_of_nat ?n + 1"
    unfolding of_int_of_nat_eq of_int_diff of_int_1 by linarith
  have cu: "1 / q \<le> rat_of_int ?c" by simp
  have cl: "rat_of_int ?c - 1 < 1 / q" by linarith
  have "Suc ?n \<le> 2 ^ ?k" by (rule Suc_leI) (rule b [THEN conjunct2])
  then have "rat_of_nat (Suc ?n) \<le> rat_of_nat (2 ^ ?k)" unfolding of_nat_le_iff .
  then have "rat_of_nat ?n + 1 \<le> 2 ^ ?k"
    unfolding of_nat_Suc of_nat_power of_nat_numeral by linarith
  then have "1 / q \<le> 2 ^ ?k" using cu cn by linarith
  then have "1 \<le> 2 ^ ?k * q" using assms by (simp add: pos_divide_le_eq)
  then have "1 / 2 ^ ?k \<le> q" by (simp add: pos_divide_le_eq mult.commute)
  then have lo: "pow2 (binary_exponent q) \<le> q" unfolding e pow2_neg_nat .
  have "rat_of_nat (2 ^ (?k - 1)) \<le> rat_of_nat ?n"
    unfolding of_nat_le_iff by (rule b [THEN conjunct1])
  then have "2 ^ (?k - 1) \<le> rat_of_nat ?n"
    unfolding of_nat_power of_nat_numeral .
  then have "2 ^ (?k - 1) < 1 / q" using cl cn by linarith
  then have "2 ^ (?k - 1) * q < 1" using assms by (simp add: pos_less_divide_eq)
  then have "q < 1 / 2 ^ (?k - 1)" by (simp add: pos_less_divide_eq mult.commute)
  then have hi: "q < pow2 (binary_exponent q + 1)" unfolding e1 pow2_neg_nat .
  show ?thesis using lo hi by simp
qed

lemma round_half_even_cases:
  obtains "round_half_even x = \<lfloor>x\<rfloor>" and "x - of_int \<lfloor>x\<rfloor> \<le> 1 / 2"
  | "round_half_even x = \<lfloor>x\<rfloor> + 1" and "1 / 2 \<le> x - of_int \<lfloor>x\<rfloor>"
  unfolding round_half_even_def Let_def
  by (cases "x - of_int \<lfloor>x\<rfloor> < 1 / 2"; cases "1 / 2 < x - of_int \<lfloor>x\<rfloor>";
      cases "even \<lfloor>x\<rfloor>") simp_all

lemma round_half_even_error: "\<bar>of_int (round_half_even x) - x\<bar> \<le> 1 / 2"
proof -
  have f: "rat_of_int \<lfloor>x\<rfloor> \<le> x" "x < rat_of_int \<lfloor>x\<rfloor> + 1"
    using floor_correct [of x] by simp_all
  show ?thesis
  proof (rule round_half_even_cases [of x])
    assume r: "round_half_even x = \<lfloor>x\<rfloor>" and h: "x - of_int \<lfloor>x\<rfloor> \<le> 1 / 2"
    show ?thesis unfolding r using f h by linarith
  next
    assume r: "round_half_even x = \<lfloor>x\<rfloor> + 1" and h: "1 / 2 \<le> x - of_int \<lfloor>x\<rfloor>"
    show ?thesis unfolding r of_int_add of_int_1 using f h by linarith
  qed
qed

lemma round_half_even_mono: "of_int a \<le> x \<Longrightarrow> a \<le> round_half_even x"
  and round_half_even_le: "x \<le> of_int b \<Longrightarrow> round_half_even x \<le> b"
proof -
  have f: "rat_of_int \<lfloor>x\<rfloor> \<le> x" "x < rat_of_int \<lfloor>x\<rfloor> + 1"
    using floor_correct [of x] by simp_all
  show "of_int a \<le> x \<Longrightarrow> a \<le> round_half_even x"
    using le_floor_iff [of a x] by (auto simp: round_half_even_def Let_def)
  show "x \<le> of_int b \<Longrightarrow> round_half_even x \<le> b"
  proof -
    assume xb: "x \<le> of_int b"
    then have fb: "\<lfloor>x\<rfloor> \<le> b" using floor_mono [of x "of_int b"] by simp
    show ?thesis
    proof (cases "\<lfloor>x\<rfloor> = b")
      case True
      then have "x = of_int b" using f(1) xb by simp
      then show ?thesis by (simp add: round_half_even_def Let_def)
    next
      case False
      then have "\<lfloor>x\<rfloor> + 1 \<le> b" using fb by simp
      then show ?thesis using fb by (auto simp: round_half_even_def Let_def)
    qed
  qed
qed

text \<open>The rounded number is a mantissa of at most 53 bits at the binary exponent of the
  number, and lies within half a unit in the last place.\<close>

lemma round_b64_nearest:
  assumes "q \<noteq> 0"
  defines "u \<equiv> pow2 (binary_exponent \<bar>q\<bar> - 52)"
  defines "m \<equiv> round_half_even (\<bar>q\<bar> / u)"
  shows "round_b64 q = sgn q * of_int m * u" and "2 ^ 52 \<le> m" and "m \<le> 2 ^ 53"
    and "\<bar>round_b64 q - q\<bar> \<le> u / 2"
proof -
  have u: "0 < u" unfolding u_def by (rule pow2_pos)
  have a: "0 < \<bar>q\<bar>" using assms(1) by simp
  show r: "round_b64 q = sgn q * of_int m * u"
    using assms(1) by (simp add: round_b64_def Let_def u_def m_def)
  have pw: "pow2 (binary_exponent \<bar>q\<bar>) = 2 ^ 52 * u"
    unfolding u_def pow2_power_int by (simp add: power_int_diff)
  have pw1: "pow2 (binary_exponent \<bar>q\<bar> + 1) = 2 ^ 53 * u"
    unfolding pow2_Suc pw by simp
  note b = binary_exponent_bounds [OF a]
  have lo: "2 ^ 52 \<le> \<bar>q\<bar> / u" using b u unfolding pw by (simp add: pos_le_divide_eq)
  have hi: "\<bar>q\<bar> / u \<le> 2 ^ 53" using b u unfolding pw1 by (simp add: pos_divide_le_eq)
  show "2 ^ 52 \<le> m" unfolding m_def
    using lo by (intro round_half_even_mono) simp
  show "m \<le> 2 ^ 53" unfolding m_def
    using hi by (intro round_half_even_le) simp
  have "\<bar>of_int m - \<bar>q\<bar> / u\<bar> \<le> 1 / 2" unfolding m_def by (rule round_half_even_error)
  then have "\<bar>of_int m - \<bar>q\<bar> / u\<bar> * u \<le> 1 / 2 * u"
    using u by (intro mult_right_mono) simp_all
  then have "\<bar>(of_int m - \<bar>q\<bar> / u) * u\<bar> \<le> u / 2"
    using u by (simp add: abs_mult)
  then have e: "\<bar>of_int m * u - \<bar>q\<bar>\<bar> \<le> u / 2"
    using u by (simp add: algebra_simps)
  have "round_b64 q - q = sgn q * (of_int m * u - \<bar>q\<bar>)"
    unfolding r by (simp add: algebra_simps sgn_if)
  then have "\<bar>round_b64 q - q\<bar> = \<bar>of_int m * u - \<bar>q\<bar>\<bar>"
    using assms(1) by (simp add: abs_mult sgn_if)
  then show "\<bar>round_b64 q - q\<bar> \<le> u / 2" using e by simp
qed

lemma round_half_even_of_int: "round_half_even (of_int k) = k"
  by (simp add: round_half_even_def)

text \<open>An integer below \<open>2^53\<close> is a binary64 number: rounding leaves it as it is.\<close>

lemma round_b64_of_nat:
  assumes "n < 2 ^ 53"
  shows "round_b64 (of_nat n) = of_nat n"
proof (cases "n = 0")
  case True
  then show ?thesis by (simp add: round_b64_def)
next
  case False
  then have n: "0 < n" by simp
  let ?k = "bit_length n"
  note b = bit_length_bounds [OF n]
  have "(2::nat) ^ (?k - 1) < 2 ^ 53" using b [THEN conjunct1] assms by (rule le_less_trans)
  then have "?k - 1 < 53" by (simp only: power_strict_increasing_iff rel_simps)
  then have k: "?k \<le> 53" by simp
  define j where "j = 53 - ?k"
  have q1: "1 \<le> rat_of_nat n" using n by simp
  have e: "binary_exponent \<bar>rat_of_nat n\<bar> - 52 = - int j"
    using q1 k by (simp add: binary_exponent_def j_def)
  have u: "pow2 (binary_exponent \<bar>rat_of_nat n\<bar> - 52) = 1 / 2 ^ j"
    unfolding e by (rule pow2_neg_nat)
  have m: "\<bar>rat_of_nat n\<bar> / (1 / 2 ^ j) = rat_of_int (int (n * 2 ^ j))" by simp
  have "round_b64 (of_nat n) = of_int (int (n * 2 ^ j)) * (1 / 2 ^ j)"
    using n unfolding round_b64_def Let_def u m round_half_even_of_int by simp
  also have "\<dots> = of_nat n" by simp
  finally show ?thesis .
qed

section \<open>Amounts: the parser and the pattern\<close>

lemma str_replace_single_empty: "str_replace [a] [] s = filter (\<lambda>c. c \<noteq> a) s"
  by (induction s) auto

lemma str_replace_single_single: "str_replace [a] [b] s = map (\<lambda>c. if c = a then b else c) s"
  by (induction s) auto

lemma not_isdigit_comma: "\<not> isdigit CHR '',''" and not_isdigit_dot: "\<not> isdigit CHR ''.''"
  by (simp_all add: isdigit_def)

lemma strip_non_numeric_replace:
  "strip_non_numeric (str_replace '','' [] s) = strip_non_numeric s"
  unfolding strip_non_numeric_def str_replace_single_empty filter_filter
  by (rule filter_cong) (auto simp: not_isdigit_comma)


lemma scan_digits_eq:
  "scan_digits number k s =
     (number * 10 ^ length (takeWhile isdigit s) + digits_value (takeWhile isdigit s),
      k + length (takeWhile isdigit s), dropWhile isdigit s)"
  by (induction s arbitrary: number k) (simp_all add: algebra_simps)

lemma take_drop_while:
  "take (length (takeWhile P xs)) xs = takeWhile P xs"
  "drop (length (takeWhile P xs)) xs = dropWhile P xs"
  by (metis append_eq_conv_conj takeWhile_dropWhile_id)+

lemma isdigit_not_dot: "isdigit c \<Longrightarrow> c \<noteq> CHR ''.''"
  by (auto simp: isdigit_def)

lemma decimal_value_digits:
  assumes "\<forall>x \<in> set ds. isdigit x"
  shows "decimal_value ds = of_nat (digits_value ds)"
proof -
  have "\<And>x. x \<in> set ds \<Longrightarrow> x \<noteq> CHR ''.''"
    using assms isdigit_not_dot by blast
  then have tk: "takeWhile (\<lambda>c. c \<noteq> CHR ''.'') ds = ds"
    and dk: "dropWhile (\<lambda>c. c \<noteq> CHR ''.'') ds = []"
    by simp_all
  show ?thesis unfolding decimal_value_def Let_def tk dk by simp
qed

lemma digits_value_bound: "\<forall>c \<in> set t. isdigit c \<Longrightarrow> digits_value t < 10 ^ length t"
proof (induction t)
  case Nil
  then show ?case by simp
next
  case (Cons c t)
  then have "digit_val c \<le> 9" and ih: "digits_value t < 10 ^ length t"
    by (auto simp: isdigit_def digit_val_def)
  then have "digit_val c * 10 ^ length t \<le> 9 * 10 ^ length t" by simp
  then have "digit_val c * 10 ^ length t + digits_value t < 9 * 10 ^ length t + 10 ^ length t"
    using ih by (rule add_le_less_mono)
  then show ?case by simp
qed

text \<open>A text of at most 15 digits and no point is cleaned to the integer it spells,
  exactly.\<close>

lemma parsed_integer_exact:
  assumes "\<forall>c \<in> set t. isdigit c" and "t \<noteq> []" and "length t \<le> 15"
  shows "round_b64 (parsed_decimal t) = of_nat (digits_value t)"
proof -
  have ex: "list_ex isdigit t" using assms(1,2) by (cases t) (auto simp: list_ex_iff)
  have "digits_value t < 10 ^ length t" using assms(1) by (rule digits_value_bound)
  also have "(10::nat) ^ length t \<le> 10 ^ 15"
    using assms(3) by (intro power_increasing) simp_all
  also have "(10::nat) ^ 15 < 2 ^ 53" by simp
  finally have "digits_value t < 2 ^ 53" .
  then show ?thesis
    using ex decimal_value_digits [OF assms(1)]
    by (simp add: parsed_decimal_def round_b64_of_nat)
qed

lemma decimal_value_point:
  assumes "\<forall>x \<in> set ds. isdigit x"
  shows "decimal_value (ds @ CHR ''.'' # q) =
         of_nat (digits_value ds) + of_nat (digits_value q) / 10 ^ length q"
proof -
  have nd: "\<And>x. x \<in> set ds \<Longrightarrow> x \<noteq> CHR ''.''"
    using assms isdigit_not_dot by blast
  have tk: "takeWhile (\<lambda>c. c \<noteq> CHR ''.'') (ds @ CHR ''.'' # q) = ds"
    using nd by (simp add: takeWhile_append2)
  have dk: "dropWhile (\<lambda>c. c \<noteq> CHR ''.'') (ds @ CHR ''.'' # q) = CHR ''.'' # q"
    using nd by (simp add: dropWhile_append2)
  show ?thesis unfolding decimal_value_def Let_def tk dk by simp
qed

lemma unsigned_numeric_digits:
  assumes "dropWhile isdigit t = []"
  shows "unsigned_numeric lib t =
     (if t = [] then NaN
      else if length t \<le> 15 then Num (round_b64 (of_nat (digits_value t)))
      else magnitude (long_numeral lib t))"
proof -
  have tk: "takeWhile isdigit t = t" using assms by simp
  show ?thesis unfolding unsigned_numeric_def scan_digits_eq assms tk by simp
qed

lemma unsigned_numeric_point:
  assumes "dropWhile isdigit t = CHR ''.'' # q" and "dropWhile isdigit q = []"
  shows "unsigned_numeric lib t =
     (if takeWhile isdigit t = [] \<and> q = [] then NaN
      else if length (takeWhile isdigit t) + length q \<le> 15
      then Num (round_b64 (of_nat (digits_value (takeWhile isdigit t)) +
                           of_nat (digits_value q) / 10 ^ length q))
      else magnitude (long_numeral lib t))"
proof -
  have tq: "takeWhile isdigit q = q" using assms(2) by simp
  have qd: "\<forall>x \<in> set q. isdigit x" using assms(2) by simp
  show ?thesis unfolding unsigned_numeric_def scan_digits_eq assms(1)
    using qd by (simp add: tq add_divide_distrib)
qed

lemma unsigned_numeric_other:
  assumes "dropWhile isdigit t = c # q" and "c \<noteq> CHR ''.'' \<or> dropWhile isdigit q \<noteq> []"
  shows "unsigned_numeric lib t = NaN"
proof (cases "c = CHR ''.''")
  case True
  with assms(2) have dq: "dropWhile isdigit q \<noteq> []" by simp
  show ?thesis unfolding unsigned_numeric_def scan_digits_eq assms(1) True
    by (simp add: dq del: dropWhile_eq_Nil_conv)
next
  case False
  show ?thesis unfolding unsigned_numeric_def scan_digits_eq assms(1)
    by (simp add: False)
qed

lemma amount_pattern_iff:
  assumes "CHR '','' \<notin> set t"
  shows "amount_pattern t \<longleftrightarrow>
         (case dropWhile isdigit t of [] \<Rightarrow> True
          | c # q \<Rightarrow> c = CHR ''.'' \<and> dropWhile isdigit q = [])"
proof
  assume "amount_pattern t"
  then obtain n where "n \<in> set [0..<Suc (length t)]"
    and pre: "list_all (\<lambda>c. isdigit c \<or> c = CHR '','') (take n t)"
    and post: "list_all isdigit (drop n t) \<or>
       (drop n t \<noteq> [] \<and> hd (drop n t) = CHR ''.'' \<and> list_all isdigit (tl (drop n t)))"
    unfolding amount_pattern_def by blast
  have pre': "\<And>x. x \<in> set (take n t) \<Longrightarrow> isdigit x"
    using pre assms by (auto simp: list_all_iff dest: in_set_takeD)
  have t: "t = take n t @ drop n t" by simp
  from post show "case dropWhile isdigit t of [] \<Rightarrow> True
          | c # q \<Rightarrow> c = CHR ''.'' \<and> dropWhile isdigit q = []"
  proof
    assume "list_all isdigit (drop n t)"
    then have "\<And>x. x \<in> set (drop n t) \<Longrightarrow> isdigit x"
      by (simp add: list_all_iff)
    moreover have "set t = set (take n t) \<union> set (drop n t)"
      by (metis set_append t)
    ultimately have "\<And>x. x \<in> set t \<Longrightarrow> isdigit x"
      using pre' by auto
    then have d: "dropWhile isdigit t = []" by simp
    show ?thesis unfolding d by simp
  next
    assume a: "drop n t \<noteq> [] \<and> hd (drop n t) = CHR ''.'' \<and> list_all isdigit (tl (drop n t))"
    then obtain q where q: "drop n t = CHR ''.'' # q" and dq: "list_all isdigit q"
      by (cases "drop n t") auto
    have "dropWhile isdigit t = dropWhile isdigit (take n t @ drop n t)" by simp
    also have "\<dots> = dropWhile isdigit (drop n t)"
      using pre' by (rule dropWhile_append2)
    also have "\<dots> = CHR ''.'' # q" by (simp add: q isdigit_def)
    finally have d: "dropWhile isdigit t = CHR ''.'' # q" .
    have "dropWhile isdigit q = []" using dq by (simp add: list_all_iff)
    then show ?thesis unfolding d by simp
  qed
next
  assume r: "case dropWhile isdigit t of [] \<Rightarrow> True
          | c # q \<Rightarrow> c = CHR ''.'' \<and> dropWhile isdigit q = []"
  let ?n = "length (takeWhile isdigit t)"
  have n: "?n \<in> set [0..<Suc (length t)]"
    using length_takeWhile_le [of isdigit t] by auto
  have pre: "list_all (\<lambda>c. isdigit c \<or> c = CHR '','') (take ?n t)"
    unfolding take_drop_while by (auto simp: list_all_iff dest: set_takeWhileD)
  have post: "list_all isdigit (drop ?n t) \<or>
       (drop ?n t \<noteq> [] \<and> hd (drop ?n t) = CHR ''.'' \<and> list_all isdigit (tl (drop ?n t)))"
  proof (cases "dropWhile isdigit t")
    case Nil
    show ?thesis unfolding take_drop_while Nil by simp
  next
    case (Cons c q)
    from r have "c = CHR ''.''" and "list_all isdigit q"
      unfolding Cons by (simp_all add: list_all_iff)
    then show ?thesis unfolding take_drop_while Cons by simp
  qed
  show "amount_pattern t" unfolding amount_pattern_def
    by (rule bexI [OF _ n]) (use pre post in simp)
qed



lemma digit_count_digits: "\<forall>x \<in> set t. isdigit x \<Longrightarrow> digit_count t = length t"
  by (simp add: digit_count_def)

lemma digit_count_point:
  assumes "\<forall>x \<in> set ds. isdigit x" and "\<forall>x \<in> set q. isdigit x"
  shows "digit_count (ds @ CHR ''.'' # q) = length ds + length q"
  using assms by (simp add: digit_count_def not_isdigit_dot)

lemma fillna_unsigned_numeric:
  assumes "CHR '','' \<notin> set t"
  shows "fillna 0 (unsigned_numeric lib t) =
     (if amount_pattern t \<and> list_ex isdigit t
      then (if digit_count t \<le> 15 then Num (round_b64 (parsed_decimal t))
            else fillna 0 (magnitude (long_numeral lib t)))
      else Num 0)"
proof (cases "dropWhile isdigit t")
  case Nil
  then have alld: "\<forall>x \<in> set t. isdigit x" by simp
  have pat: "amount_pattern t" unfolding amount_pattern_iff [OF assms] Nil by simp
  have ex: "list_ex isdigit t \<longleftrightarrow> t \<noteq> []"
    using alld by (cases t) (auto simp: list_ex_iff)
  show ?thesis
    unfolding unsigned_numeric_digits [OF Nil]
    using pat ex decimal_value_digits [OF alld] digit_count_digits [OF alld]
    by (simp add: fillna_def parsed_decimal_def)
next
  case (Cons c q)
  let ?ds = "takeWhile isdigit t"
  have t: "t = ?ds @ c # q" using Cons by (metis takeWhile_dropWhile_id)
  have dsd: "\<forall>x \<in> set ?ds. isdigit x" by (auto dest: set_takeWhileD)
  show ?thesis
  proof (cases "c = CHR ''.'' \<and> dropWhile isdigit q = []")
    case True
    then have c: "c = CHR ''.''" and dq: "dropWhile isdigit q = []" by simp_all
    have qd: "\<forall>x \<in> set q. isdigit x" using dq by simp
    have pat: "amount_pattern t" unfolding amount_pattern_iff [OF assms] Cons using True by simp
    have "set t = set ?ds \<union> {c} \<union> set q" by (subst t) auto
    then have ex: "list_ex isdigit t \<longleftrightarrow> (?ds \<noteq> [] \<or> q \<noteq> [])"
      using dsd qd c by (cases ?ds; cases q) (auto simp: list_ex_iff isdigit_def)
    have dv: "decimal_value t = of_nat (digits_value ?ds) + of_nat (digits_value q) / 10 ^ length q"
      by (subst t, subst c) (rule decimal_value_point [OF dsd])
    have dc: "digit_count t = length ?ds + length q"
      by (subst t, subst c) (rule digit_count_point [OF dsd qd])
    have Cons': "dropWhile isdigit t = CHR ''.'' # q" using Cons c by simp
    show ?thesis
      unfolding unsigned_numeric_point [OF Cons' dq]
      using pat ex dv dc by (simp add: fillna_def parsed_decimal_def)
  next
    case False
    then have pat: "\<not> amount_pattern t" unfolding amount_pattern_iff [OF assms] Cons by simp
    have "unsigned_numeric lib t = NaN"
      using Cons False by (intro unsigned_numeric_other) auto
    then show ?thesis using pat by (simp add: fillna_def)
  qed
qed

lemma comma_notin_strip: "CHR '','' \<notin> set (strip_non_numeric s)"
  by (auto simp: strip_non_numeric_def isdigit_def)

lemma strip_non_numeric_chars:
  "c \<in> set (strip_non_numeric s) \<Longrightarrow> isdigit c \<or> c = CHR ''.''"
  by (simp add: strip_non_numeric_def)


lemma split_sign_unsigned:
  assumes "\<forall>c \<in> set t. isdigit c \<or> c = CHR ''.''"
  shows "split_sign t = (False, t)"
proof (cases t)
  case Nil
  then show ?thesis by (simp add: split_sign_def)
next
  case (Cons c r)
  with assms have "isdigit c \<or> c = CHR ''.''" by simp
  then have "c \<noteq> CHR ''-''" and "c \<noteq> CHR ''+''" by (auto simp: isdigit_def)
  then show ?thesis using Cons by (simp add: split_sign_def)
qed

lemma to_numeric_unsigned:
  assumes "\<forall>c \<in> set t. isdigit c \<or> c = CHR ''.''"
  shows "to_numeric lib t = unsigned_numeric lib t"
  using assms by (simp add: to_numeric_def split_sign_unsigned list_all_iff)

lemma clean_amount_eq:
  "clean_amount lib v =
     (let t = strip_non_numeric (astype_str lib v)
      in if amount_pattern t \<and> list_ex isdigit t
         then (if digit_count t \<le> 15 then Num (round_b64 (parsed_decimal t))
               else fillna 0 (magnitude (long_numeral lib t)))
         else Num 0)"
proof -
  have "\<forall>c \<in> set (strip_non_numeric (astype_str lib v)). isdigit c \<or> c = CHR ''.''"
    using strip_non_numeric_chars by blast
  then show ?thesis
    unfolding clean_amount_def strip_non_numeric_replace Let_def
    by (simp only: to_numeric_unsigned fillna_unsigned_numeric [OF comma_notin_strip])
qed

lemma amount_pattern_chars:
  assumes "amount_pattern t" and "x \<in> set t"
  shows "isdigit x \<or> x = CHR '','' \<or> x = CHR ''.''"
proof -
  from assms(1) obtain n where
    pre: "list_all (\<lambda>c. isdigit c \<or> c = CHR '','') (take n t)"
    and post: "list_all isdigit (drop n t) \<or>
       (drop n t \<noteq> [] \<and> hd (drop n t) = CHR ''.'' \<and> list_all isdigit (tl (drop n t)))"
    unfolding amount_pattern_def by blast
  have "set t = set (take n t) \<union> set (drop n t)" by (metis append_take_drop_id set_append)
  with assms(2) consider "x \<in> set (take n t)" | "x \<in> set (drop n t)" by blast
  then show ?thesis
  proof cases
    case 1
    then show ?thesis using pre by (auto simp: list_all_iff)
  next
    case 2
    from post show ?thesis
    proof
      assume "list_all isdigit (drop n t)"
      then show ?thesis using 2 by (auto simp: list_all_iff)
    next
      assume "drop n t \<noteq> [] \<and> hd (drop n t) = CHR ''.'' \<and> list_all isdigit (tl (drop n t))"
      then obtain q where "drop n t = CHR ''.'' # q" and "list_all isdigit q"
        by (cases "drop n t") auto
      then show ?thesis using 2 by (auto simp: list_all_iff)
    qed
  qed
qed

lemma strip_non_numeric_matching:
  assumes "amount_pattern (remove_commas s)"
  shows "strip_non_numeric s = remove_commas s"
proof -
  have "strip_non_numeric s = filter (\<lambda>c. isdigit c \<or> c = CHR ''.'') (remove_commas s)"
    unfolding strip_non_numeric_def remove_commas_def filter_filter
    by (rule filter_cong) (auto simp: isdigit_def)
  also have "\<dots> = remove_commas s"
  proof -
    have "\<forall>x \<in> set (remove_commas s). isdigit x \<or> x = CHR ''.''"
    proof
      fix x assume x: "x \<in> set (remove_commas s)"
      then have "x \<noteq> CHR '',''" by (simp add: remove_commas_def)
      with amount_pattern_chars [OF assms x] show "isdigit x \<or> x = CHR ''.''" by simp
    qed
    then show ?thesis by (rule filter_True)
  qed
  finally show ?thesis .
qed


lemma parsed_decimal_nonneg: "0 \<le> parsed_decimal t"
  by (simp add: parsed_decimal_def decimal_value_def Let_def)

lemma fillna_magnitude_nonneg:
  "(\<exists>q. fillna 0 (magnitude v) = Num q \<and> 0 \<le> q) \<or> fillna 0 (magnitude v) = PInf"
  by (cases v) (simp_all add: fillna_def magnitude_def)

lemma clean_amount_nonneg:
  "(\<exists>q. clean_amount lib v = Num q \<and> 0 \<le> q) \<or> clean_amount lib v = PInf"
  unfolding clean_amount_eq Let_def
  using fillna_magnitude_nonneg [of "long_numeral lib (strip_non_numeric (astype_str lib v))"]
  by (simp add: round_b64_nonneg parsed_decimal_nonneg)

section \<open>Dates: rendering and reading back\<close>































section \<open>The scenario of the specification, evaluated\<close>

lemma digit_char_simps:
  "digit_char 0 = CHR ''0''" "digit_char (Suc 0) = CHR ''1''" "digit_char 1 = CHR ''1''"
  "digit_char 2 = CHR ''2''" "digit_char 3 = CHR ''3''" "digit_char 4 = CHR ''4''"
  "digit_char 5 = CHR ''5''" "digit_char 6 = CHR ''6''" "digit_char 7 = CHR ''7''"
  "digit_char 8 = CHR ''8''" "digit_char 9 = CHR ''9''"
  by code_simp+

lemmas eval_floats = round_b64_def binary_exponent_def pow2_def round_half_even_def
  bit_length_0 bit_length_1 bit_length_numeral Let_def floor_rat_numeral ceiling_rat_numeral

lemmas eval_cells = clean_amount_def astype_str_def strip_non_numeric_def isdigit_def
  to_numeric_def split_sign_def unsigned_numeric_def magnitude_def negate_def
  digit_val_def fillna_def clean_narration_def

lemmas eval_dates = to_datetime_def guessed_day_first_def read_cell_def word_texts_def
  strptime_def day_field_def month_field_def year_field_def number_of_def coerce_def
  admitted_def calendar_date_def days_in_month_def is_leap_def isdigit_def digit_val_def
  strftime_def two_digits_def digit_char_simps show_nat.simps dt_strftime_def

lemmas eval_steps = clean_fields_def cols_to_clean_def headers_def
  clean_amount_step_def clean_date_step_def clean_narration_step_def column_step_def
  update_series_def positions_def getcol_def setcol_def clean_dates_def
  upt_rec [of _ "numeral _"] upt_rec [of _ "Suc _"]

lemma to_numeric_reads_sign:
  "to_numeric lib ''-12'' = Num (- 12)" "to_numeric lib ''12'' = Num 12"
  "clean_amount lib (Str ''-12'') = Num 12"
  by (simp_all add: eval_cells eval_floats)

lemma to_numeric_rounds:
  "to_numeric lib ''0.10'' = Num (3602879701896397 / 36028797018963968)"
  by (simp add: eval_cells eval_floats)

lemma to_datetime_example:
  "to_datetime lib [Str ''01/04/2024''] 0 = Some (Date 2024 4 (Suc 0))"
  by (simp add: eval_dates)

lemma strftime_example: "strftime lib (Date 2024 4 (Suc 0)) = ''01/04/2024''"
  by (simp add: eval_dates)

lemma example_clean: "clean_fields lib example_frame = Inr example_cleaned"
  by (simp add: example_frame_def example_cleaned_def eval_steps eval_cells eval_floats
      to_datetime_example strftime_example dt_strftime_def)

lemma signed_clean: "clean_fields lib signed_frame = Inr signed_cleaned"
  by (simp add: signed_frame_def signed_cleaned_def eval_steps eval_cells eval_floats
      to_datetime_example strftime_example dt_strftime_def)



lemma example_collect:
  "collect_transactions example_pages =
     [[''Date'', ''Narration'', ''Chq./Ref.No.'', ''Value Date'',
       ''Withdrawal Amount'', ''Deposit Amount'', ''Closing Balance''],
      [''01/04/2024'', ''Salary Credit'' @ [CHR 0x0A] @ ''ABC Corp'', ''REF1'',
       ''01/04/2024'', [], ''5,000.00'', ''10,000.00'']]"
  by code_simp

lemma example_header:
  "resolve_header (DataFrame (collect_transactions example_pages)) = Inr example_frame"
  unfolding example_collect by code_simp

lemma example_extract:
  "extract_hdfc_statement lib pdf_filename (Inr example_pages) =
     ([Line (''Processing 1 pages in '' @ [CHR 0x27] @ ''statement.pdf'' @ [CHR 0x27] @ ''...'')],
      Inr (Some (example_cleaned\<lparr>index := [0]\<rparr>)))"
proof -
  have ne: "collect_transactions example_pages \<noteq> []" by (simp add: example_collect)
  have s: "show_nat (Suc 0) = ''1''" by code_simp
  show ?thesis
    unfolding extract_hdfc_statement_def Let_def
    using ne example_header example_clean
    by (simp add: s example_pages_def pdf_filename_def reset_index_def example_cleaned_def)
qed

lemma example_wf: "wf_df example_frame"
  by (simp add: wf_df_def example_frame_def headers_def)

lemma signed_wf: "wf_df signed_frame"
  by (simp add: wf_df_def signed_frame_def headers_def)


section \<open>Claims about field cleaning\<close>

text \<open>
  The claims about cells are stated for any frame with one cell per column in every row;
  the frame that header resolution hands to the cleaning steps is one
  (\<open>resolved_frame_wf\<close> below).
\<close>

text \<open>
  Claim C1, as amended. For every cell of the Withdrawal Amount, Deposit Amount or Closing
  Balance column: let \<open>t\<close> be the text of the cell with every character other than a digit
  or a decimal point removed (commas, signs, letters and blanks). If \<open>t\<close> matches the
  pattern (digits, at most one point, digits) and has a digit, the cleaned value is
  \<^item> for at most 15 digits, the binary64 float nearest to \<open>t\<close> read as a decimal number,
    ties to the even mantissa (\<open>0.10\<close> gives the float \<open>0.1\<close>, which is not a tenth);
  \<^item> for more than 15 digits, what the library makes of the numeral: a float that is not
    negative, the rounded value or \<open>inf\<close>, or 0.0 where it fails to parse it.

  Otherwise (no digit, or two points or more) the cleaned value is 0.0. A cell that
  matches the pattern of the claim once its commas are removed is its own \<open>t\<close>.
\<close>

theorem amount_cell_cleaned:
  assumes "clean_fields lib df = Inr df'" and "wf_df df" and "k < length (columns df)"
    and "columns df ! k \<in> Str ` set cols_to_clean" and "i < length (data df)"
  shows "data df' ! i ! k =
           (let t = strip_non_numeric (astype_str lib (data df ! i ! k))
            in if amount_pattern t \<and> list_ex isdigit t
               then (if digit_count t \<le> 15 then Num (round_b64 (parsed_decimal t))
                     else fillna 0 (magnitude (long_numeral lib t)))
               else Num 0)
         \<and> (\<forall>s. data df ! i ! k = Str s \<and> amount_pattern (remove_commas s) \<longrightarrow>
               strip_non_numeric (astype_str lib (data df ! i ! k)) = remove_commas s)"
  using clean_fields_amount_cell [OF assms] clean_amount_eq [of lib "data df ! i ! k"]
    strip_non_numeric_matching
  by (auto simp: astype_str_def)

theorem amount_cell_cleaned_witness:
  "data signed_frame ! 0 ! 5 = Str ''0.10''
   \<and> amount_pattern (remove_commas ''0.10'') \<and> remove_commas ''0.10'' = ''0.10''
   \<and> list_ex isdigit ''0.10'' \<and> digit_count ''0.10'' = 3
   \<and> parsed_decimal ''0.10'' = 1 / 10
   \<and> round_b64 (parsed_decimal ''0.10'') = 3602879701896397 / 36028797018963968
   \<and> data signed_cleaned ! 0 ! 5 = Num (round_b64 (parsed_decimal ''0.10''))"
proof -
  have c: "data signed_frame ! 0 ! 5 = Str ''0.10''"
    by (simp add: signed_frame_def)
  have r: "remove_commas ''0.10'' = ''0.10''"
    by (simp add: remove_commas_def)
  have p: "amount_pattern ''0.10''"
    by (simp add: amount_pattern_iff isdigit_def)
  have e: "list_ex isdigit ''0.10''" by (simp add: isdigit_def)
  have n: "digit_count ''0.10'' = 3" by (simp add: digit_count_def isdigit_def)
  have v: "parsed_decimal ''0.10'' = 1 / 10"
    by (simp add: parsed_decimal_def decimal_value_def isdigit_def digit_val_def)
  have b: "round_b64 (1 / 10) = 3602879701896397 / 36028797018963968"
    by (simp add: eval_floats)
  have l: "columns signed_frame ! 5 \<in> Str ` set cols_to_clean"
    by (simp add: signed_frame_def headers_def cols_to_clean_def)
  have s: "strip_non_numeric ''0.10'' = ''0.10''"
    by (simp add: strip_non_numeric_def isdigit_def)
  have p': "amount_pattern (remove_commas ''0.10'')" unfolding r by (rule p)
  have b': "round_b64 (parsed_decimal ''0.10'') = 3602879701896397 / 36028797018963968"
    unfolding v by (rule b)
  have "data signed_cleaned ! 0 ! 5 = Num (round_b64 (parsed_decimal ''0.10''))"
    using amount_cell_cleaned [OF signed_clean [of plain_library] signed_wf _ l, of 0] p e n
    by (simp add: signed_frame_def headers_def astype_str_def s)
  with c p' r e n v b' show ?thesis by blast
qed

text \<open>
  The claim as stated promises 0.0 for every cell that does not match the pattern. The
  cell \<open>500.00 Dr\<close> does not match it and is cleaned to 500.
\<close>

theorem amount_other_content_counterexample:
  "\<not> amount_pattern (remove_commas ''500.00 Dr'')
   \<and> clean_fields plain_library
        \<lparr>columns = map Str headers, index = [0],
         data = [[Str ''01/04/2024'', Str ''ATM'', Str [], Str ''01/04/2024'',
                  Str ''500.00 Dr'', Str [], Str ''9,500.00'']]\<rparr> =
      Inr \<lparr>columns = map Str headers, index = [0],
           data = [[Str ''01/04/2024'', Str ''ATM'', Str [], Str ''01/04/2024'',
                    Num 500, Num 0, Num 9500]]\<rparr>"
proof -
  have "\<not> amount_pattern (remove_commas ''500.00 Dr'')"
    by (simp add: remove_commas_def amount_pattern_iff isdigit_def)
  then show ?thesis
    by (simp add: eval_steps eval_cells eval_floats to_datetime_example strftime_example
        dt_strftime_def)
qed

text \<open>
  Claim C8. After field cleaning every cell of the Withdrawal Amount, Deposit Amount and
  Closing Balance columns is a float greater than or equal to zero: a finite one, or
  \<open>inf\<close> (which only a numeral of more than 15 digits can give). It is never \<open>nan\<close> and
  never negative: line 61 removes the sign that \<open>pd.to_numeric\<close> would read.
\<close>

theorem amounts_nonnegative:
  assumes "clean_fields lib df = Inr df'" and "wf_df df" and "k < length (columns df)"
    and "columns df ! k \<in> Str ` set cols_to_clean" and "i < length (data df)"
  shows "(\<exists>q. data df' ! i ! k = Num q \<and> 0 \<le> q) \<or> data df' ! i ! k = PInf"
  using clean_fields_amount_cell [OF assms] clean_amount_nonneg [of lib "data df ! i ! k"]
  by simp

theorem amounts_nonnegative_witness:
  "data signed_frame ! 0 ! 4 = Str ''-500.00''
   \<and> to_numeric plain_library ''-500.00'' = Num (- 500)
   \<and> data signed_cleaned ! 0 ! 4 = Num 500
   \<and> ((\<exists>q. data signed_cleaned ! 0 ! 4 = Num q \<and> 0 \<le> q) \<or> data signed_cleaned ! 0 ! 4 = PInf)"
proof -
  have c: "data signed_frame ! 0 ! 4 = Str ''-500.00''"
    by (simp add: signed_frame_def)
  have t: "to_numeric plain_library ''-500.00'' = Num (- 500)"
    by (simp add: eval_cells eval_floats)
  have v: "data signed_cleaned ! 0 ! 4 = Num 500"
    by (simp add: signed_cleaned_def)
  have "(\<exists>q. data signed_cleaned ! 0 ! 4 = Num q \<and> 0 \<le> q) \<or> data signed_cleaned ! 0 ! 4 = PInf"
    using amounts_nonnegative [OF signed_clean [of plain_library] signed_wf, of 4 0]
    by (simp add: signed_frame_def headers_def cols_to_clean_def)
  then show ?thesis using c t v by simp
qed

text \<open>
  Claim C7. After field cleaning a Narration cell is the text of the cell with each
  newline replaced by one space and every other character kept in place; it contains no
  newline. The text of a text cell is the cell itself.
\<close>

theorem narration_newlines_replaced:
  assumes "clean_fields lib df = Inr df'" and "wf_df df" and "k < length (columns df)"
    and "columns df ! k = Str ''Narration''" and "i < length (data df)"
  shows "(\<exists>t. data df' ! i ! k = Str t \<and> CHR 0x0A \<notin> set t \<and>
            t = map (\<lambda>c. if c = CHR 0x0A then CHR '' '' else c)
                  (astype_str lib (data df ! i ! k)))
         \<and> astype_str lib (Str s) = s"
  using clean_fields_narration_cell [OF assms]
  by (auto simp: clean_narration_def str_replace_single_single astype_str_def)

theorem narration_newlines_replaced_witness:
  "data example_cleaned ! 0 ! 1 = Str ''Salary Credit ABC Corp''
   \<and> CHR 0x0A \<notin> set ''Salary Credit ABC Corp''"
  using narration_newlines_replaced [OF example_clean [of plain_library] example_wf, of 1 0 "[]"]
  by (simp add: example_frame_def headers_def example_cleaned_def astype_str_def)

text \<open>
  Claim C9. Whenever the extraction function returns a frame, header resolution returned
  a frame, and the index of the result is \<open>0, 1, ..., n - 1\<close> for the number \<open>n\<close> of rows
  of that frame: cleaning and the index reset keep the number of rows.
\<close>

theorem result_index_contiguous:
  assumes "extract_hdfc_statement lib pdf_path (Inr pages) = (out, Inr (Some df))"
  shows "\<exists>df0. resolve_header (DataFrame (collect_transactions pages)) = Inr df0 \<and>
           index df = [0..<length (data df0)] \<and> length (data df) = length (data df0)"
proof -
  from assms obtain df0 df1 where
    h: "resolve_header (DataFrame (collect_transactions pages)) = Inr df0"
    and c: "clean_fields lib df0 = Inr df1" and r: "df = reset_index df1"
    by (rule extract_Some)
  have "length (data df1) = length (data df0)"
    using clean_fields_shape [OF c] by (rule same_shape_rows)
  then show ?thesis using h r by (simp add: reset_index_def)
qed

theorem result_index_contiguous_witness:
  "resolve_header (DataFrame (collect_transactions example_pages)) = Inr example_frame
   \<and> index (example_cleaned\<lparr>index := [0]\<rparr>) = [0..<length (data example_frame)]
   \<and> length (data (example_cleaned\<lparr>index := [0]\<rparr>)) = length (data example_frame)"
proof -
  from result_index_contiguous [OF example_extract [of plain_library]] obtain df0 where
    h: "resolve_header (DataFrame (collect_transactions example_pages)) = Inr df0"
    and i: "index (example_cleaned\<lparr>index := [0]\<rparr>) = [0..<length (data df0)]"
    and n: "length (data (example_cleaned\<lparr>index := [0]\<rparr>)) = length (data df0)"
    by blast
  have "df0 = example_frame" using h example_header by simp
  then show ?thesis using example_header i n by simp
qed

text \<open>
  Claim C10. Whenever the extraction function returns a frame, it has the column labels
  header resolution assigned, and every cell of a column whose label is none of
  Withdrawal Amount, Deposit Amount, Closing Balance, Date, Value Date and Narration is
  the cell header resolution left there; the rows header resolution leaves are rows of
  the normalised table.
\<close>

theorem other_columns_unchanged:
  assumes "extract_hdfc_statement lib pdf_path (Inr pages) = (out, Inr (Some df))"
  shows "\<exists>df0. resolve_header (DataFrame (collect_transactions pages)) = Inr df0 \<and>
           set (data df0) \<subseteq> set (data (DataFrame (collect_transactions pages))) \<and>
           columns df = columns df0 \<and>
           (\<forall>i < length (data df0). \<forall>k < length (columns df0).
              columns df0 ! k \<notin> cleaned_labels \<longrightarrow> data df ! i ! k = data df0 ! i ! k)"
proof -
  from assms obtain df0 df1 where
    h: "resolve_header (DataFrame (collect_transactions pages)) = Inr df0"
    and c: "clean_fields lib df0 = Inr df1" and r: "df = reset_index df1"
    by (rule extract_Some)
  have "columns df1 = columns df0"
    using clean_fields_shape [OF c] by (simp add: same_shape_def)
  moreover have "\<forall>i < length (data df0). \<forall>k < length (columns df0).
      columns df0 ! k \<notin> cleaned_labels \<longrightarrow> data df1 ! i ! k = data df0 ! i ! k"
    using clean_fields_other [OF c] by blast
  ultimately show ?thesis using h resolve_header_rows [OF h] r by (simp add: reset_index_def)
qed

theorem other_columns_unchanged_witness:
  "columns example_frame ! 2 = Str ''Chq./Ref.No.''
   \<and> Str ''Chq./Ref.No.'' \<notin> cleaned_labels
   \<and> data (example_cleaned\<lparr>index := [0]\<rparr>) ! 0 ! 2 = data example_frame ! 0 ! 2
   \<and> data example_frame ! 0 ! 2 = Str ''REF1''"
proof -
  from other_columns_unchanged [OF example_extract [of plain_library]] obtain df0 where
    h: "resolve_header (DataFrame (collect_transactions example_pages)) = Inr df0"
    and u: "\<forall>i < length (data df0). \<forall>k < length (columns df0).
              columns df0 ! k \<notin> cleaned_labels \<longrightarrow>
              data (example_cleaned\<lparr>index := [0]\<rparr>) ! i ! k = data df0 ! i ! k"
    by blast
  have df0: "df0 = example_frame" using h example_header by simp
  have l: "columns example_frame ! 2 = Str ''Chq./Ref.No.''"
    by (simp add: example_frame_def headers_def)
  have n: "Str ''Chq./Ref.No.'' \<notin> cleaned_labels"
    by (simp add: cleaned_labels_def cols_to_clean_def image_iff)
  have "data (example_cleaned\<lparr>index := [0]\<rparr>) ! 0 ! 2 = data example_frame ! 0 ! 2"
    using u l n unfolding df0 by (simp add: example_frame_def headers_def)
  then show ?thesis using l n by (simp add: example_frame_def)
qed



section \<open>Header resolution: properties\<close>

lemma widest_ge: "row \<in> set rows \<Longrightarrow> length row \<le> widest rows"
  unfolding widest_def by (induction rows) auto

lemma widest_eq:
  "rows \<noteq> [] \<Longrightarrow> \<forall>row \<in> set rows. length row = n \<Longrightarrow> widest rows = n"
  unfolding widest_def by (induction rows rule: list_nonempty_induct) simp_all

lemma DataFrame_eq:
  "DataFrame rows =
     \<lparr>columns = map IntV [0..<widest rows], index = [0..<length rows],
      data = map (pad_row (widest rows)) rows\<rparr>"
  by (simp add: DataFrame_def widest_def pad_row_def Let_def)

lemma length_pad_row: "length row \<le> n \<Longrightarrow> length (pad_row n row) = n"
  by (simp add: pad_row_def)

lemma nth_pad_row: "k < length row \<Longrightarrow> pad_row n row ! k = Str (row ! k)"
  by (simp add: pad_row_def nth_append)

lemma DataFrame_wf: "wf_df (DataFrame rows)"
  by (simp add: DataFrame_eq wf_df_def list_all_iff length_pad_row widest_ge)

lemma filter_upt_eq: "k < n \<Longrightarrow> filter (\<lambda>j. j = k) [0..<n] = [k]"
proof (induction n)
  case 0
  then show ?case by simp
next
  case (Suc n)
  show ?case
  proof (cases "k = n")
    case True
    have "filter (\<lambda>j. j = n) [0..<n] = []" by (simp add: filter_empty_conv)
    then show ?thesis using True by simp
  next
    case False
    then have "k < n" using Suc.prems by simp
    then show ?thesis using Suc.IH False by simp
  qed
qed

lemma positions_DataFrame:
  assumes "k < widest rows"
  shows "positions (IntV k) (DataFrame rows) = [k]"
proof -
  have "filter (\<lambda>j. map IntV [0..<widest rows] ! j = IntV k) [0..<widest rows]
        = filter (\<lambda>j. j = k) [0..<widest rows]"
    by (rule filter_cong) simp_all
  then show ?thesis using filter_upt_eq [OF assms] by (simp add: positions_def DataFrame_eq)
qed

lemma series_of_DataFrame:
  assumes "\<forall>row \<in> set rows. k < length row" and "rows \<noteq> []"
  shows "series_of (IntV k) (DataFrame rows) = Some (map (\<lambda>row. Str (row ! k)) rows)"
proof -
  obtain r where r: "r \<in> set rows" using assms(2) by (cases rows) auto
  have "k < widest rows" using assms(1) r widest_ge [OF r] by fastforce
  then have "series_of (IntV k) (DataFrame rows) = Some (getcol k (data (DataFrame rows)))"
    by (simp add: series_of_def positions_DataFrame)
  moreover have "getcol k (data (DataFrame rows)) = map (\<lambda>row. Str (row ! k)) rows"
    using assms(1) by (simp add: DataFrame_eq getcol_def nth_pad_row)
  ultimately show ?thesis by simp
qed

lemma header_mask_rows:
  "header_mask (map (\<lambda>row. Str (row ! 0)) rows) (map (\<lambda>row. Str (row ! Suc 0)) rows)
     = map is_header_row rows"
  by (induction rows) (simp_all add: header_mask_def is_header_row_def str_contains_def)

lemma select_map_filter:
  "select (map (Not \<circ> P) xs) (map f xs) = map f (filter (\<lambda>x. \<not> P x) xs)"
  by (induction xs) (simp_all add: select_def)

lemma select_zip_filter:
  "length ys = length xs \<Longrightarrow>
   select (map (Not \<circ> P) xs) ys = map snd (filter (\<lambda>(x, y). \<not> P x) (zip xs ys))"
  by (induction xs ys rule: list_induct2') (simp_all add: select_def)

lemma resolve_header_signature:
  assumes "rows \<noteq> []" and "\<forall>row \<in> set rows. length row = 7"
    and "list_ex is_header_row rows"
  shows "resolve_header (DataFrame rows) =
     Inr \<lparr>columns = map Str headers,
          index = map snd (filter (\<lambda>(row, i). \<not> is_header_row row) (zip rows [0..<length rows])),
          data = map (map Str) (filter (\<lambda>row. \<not> is_header_row row) rows)\<rparr>"
proof -
  have c0: "series_of (IntV 0) (DataFrame rows) = Some (map (\<lambda>row. Str (row ! 0)) rows)"
    using assms(1,2) by (intro series_of_DataFrame) auto
  have c1: "series_of (IntV 1) (DataFrame rows) = Some (map (\<lambda>row. Str (row ! 1)) rows)"
    using assms(1,2) by (intro series_of_DataFrame) auto
  have w: "widest rows = 7" using assms(1,2) by (rule widest_eq)
  have any: "list_ex id (map is_header_row rows)"
    using assms(3) by (simp add: list_ex_iff)
  have pad: "map (pad_row 7) rows = map (map Str) rows"
    using assms(2) by (simp add: pad_row_def)
  have d: "select (map (Not \<circ> is_header_row) rows) (map (map Str) rows)
           = map (map Str) (filter (\<lambda>row. \<not> is_header_row row) rows)"
    by (rule select_map_filter)
  have i: "select (map (Not \<circ> is_header_row) rows) [0..<length rows]
           = map snd (filter (\<lambda>(row, i). \<not> is_header_row row) (zip rows [0..<length rows]))"
    by (rule select_zip_filter) simp
  show ?thesis
    unfolding resolve_header_def c0 c1
    using any by (simp add: Let_def header_mask_rows DataFrame_eq w headers_def pad d i)
qed

lemma resolve_header_fallback:
  assumes "rows \<noteq> []" and "\<forall>row \<in> set rows. 7 \<le> length row"
    and "\<not> list_ex is_header_row rows"
  shows "resolve_header (DataFrame rows) =
     Inr \<lparr>columns = pad_row (widest rows) (hd rows),
          index = [1..<length rows],
          data = map (pad_row (widest rows)) (tl rows)\<rparr>"
proof -
  have c0: "series_of (IntV 0) (DataFrame rows) = Some (map (\<lambda>row. Str (row ! 0)) rows)"
    using assms(1,2) by (intro series_of_DataFrame) auto
  have c1: "series_of (IntV 1) (DataFrame rows) = Some (map (\<lambda>row. Str (row ! 1)) rows)"
    using assms(1,2) by (intro series_of_DataFrame) auto
  have any: "\<not> list_ex id (map is_header_row rows)"
    using assms(3) by (simp add: list_ex_iff)
  have "[0..<length rows] = 0 # [Suc 0..<length rows]"
    using assms(1) by (intro upt_conv_Cons) simp
  then have tl: "tl [0..<length rows] = [Suc 0..<length rows]" by simp
  have m: "map (pad_row (widest rows)) rows =
           pad_row (widest rows) (hd rows) # map (pad_row (widest rows)) (tl rows)"
    using assms(1) by (cases rows) simp_all
  show ?thesis
    unfolding resolve_header_def c0 c1
    by (simp add: Let_def header_mask_rows DataFrame_eq any tl m)
qed

lemma resolve_header_wf:
  assumes "resolve_header df = Inr df0" and "wf_df df"
  shows "wf_df df0"
proof -
  have rows: "\<forall>row \<in> set (data df0). length row = length (columns df)"
    using resolve_header_rows [OF assms(1)] assms(2) by (auto simp: wf_df_def list_all_iff)
  have "length (columns df0) = length (columns df)"
    using assms unfolding resolve_header_def Let_def
    by (auto split: option.splits if_splits list.splits simp: headers_def wf_df_def)
  then show ?thesis using rows by (simp add: wf_df_def list_all_iff)
qed


lemma resolved_frame_wf: "resolve_header (DataFrame rows) = Inr df0 \<Longrightarrow> wf_df df0"
  by (rule resolve_header_wf [OF _ DataFrame_wf])

lemma resolve_header_raises:
  assumes "rows \<noteq> []" and "\<forall>row \<in> set rows. 7 \<le> length row"
    and "list_ex is_header_row rows" and "widest rows \<noteq> 7"
  shows "resolve_header (DataFrame rows) = Inl ValueError"
proof -
  have c0: "series_of (IntV 0) (DataFrame rows) = Some (map (\<lambda>row. Str (row ! 0)) rows)"
    using assms(1,2) by (intro series_of_DataFrame) auto
  have c1: "series_of (IntV 1) (DataFrame rows) = Some (map (\<lambda>row. Str (row ! 1)) rows)"
    using assms(1,2) by (intro series_of_DataFrame) auto
  have any: "list_ex id (map is_header_row rows)"
    using assms(3) by (simp add: list_ex_iff)
  show ?thesis
    unfolding resolve_header_def c0 c1
    using any assms(4) by (simp add: Let_def header_mask_rows DataFrame_eq headers_def)
qed

lemma example_rows_header:
  "is_header_row (example_rows ! 0)" "\<not> is_header_row (example_rows ! 1)"
  unfolding example_rows_def by code_simp+

text \<open>
  Claim C2. The claim says that whenever a row has "Date" in column 0 and "Narration" in
  column 1 the seven fixed names are assigned and the rows with that signature removed.
  On \<open>wide_rows\<close>, a table of 8 columns whose first row has the signature, the assignment
  of the seven names to eight columns raises \<open>ValueError\<close> and no frame is returned.
  (On a table of 7 columns the first branch does what the claim says,
  \<open>resolve_header_signature\<close>; without a signature row the first row becomes the labels
  whatever the width, \<open>resolve_header_fallback\<close>.)
\<close>

theorem header_names_raise_on_wide_rows:
  "list_all (\<lambda>row. length row = 8) wide_rows \<and> list_ex is_header_row wide_rows
   \<and> resolve_header (DataFrame wide_rows) = Inl ValueError"
  unfolding wide_rows_def by code_simp

text \<open>
  Claim C4. The claim says that header resolution completes on every table whose rows
  have at least 7 cells. On \<open>wide_pages\<close>, whose rows have 8 cells each, the assignment
  of the seven names to eight columns raises \<open>ValueError\<close>: the extraction function
  returns nothing, and the entry point reports an unexpected error and writes no file.
\<close>

theorem wide_table_raises:
  "collect_transactions wide_pages =
     [[''Date'', ''Narration'', ''Chq./Ref.No.'', ''Value Date'',
       ''Withdrawal Amount'', ''Deposit Amount'', ''Closing Balance'', []],
      [''02/04/2024'', ''POS 4111'', [], ''02/04/2024'', ''120.00'', [], ''9,380.00'', []]]
   \<and> resolve_header (DataFrame (collect_transactions wide_pages)) = Inl ValueError
   \<and> extract_hdfc_statement lib pdf_filename (Inr wide_pages) =
       ([Line (''Processing 1 pages in '' @ [CHR 0x27] @ pdf_filename @ [CHR 0x27] @ ''...'')],
        Inl ValueError)
   \<and> main lib (Inr wide_pages) \<lparr>stdout = [], files = []\<rparr> =
       \<lparr>stdout =
          [Line (''Processing 1 pages in '' @ [CHR 0x27] @ pdf_filename @ [CHR 0x27] @ ''...''),
           Unexpected ValueError],
        files = []\<rparr>"
proof -
  have c: "collect_transactions wide_pages =
     [[''Date'', ''Narration'', ''Chq./Ref.No.'', ''Value Date'',
       ''Withdrawal Amount'', ''Deposit Amount'', ''Closing Balance'', []],
      [''02/04/2024'', ''POS 4111'', [], ''02/04/2024'', ''120.00'', [], ''9,380.00'', []]]"
    unfolding wide_pages_def by code_simp
  have h: "resolve_header (DataFrame (collect_transactions wide_pages)) = Inl ValueError"
    unfolding c by code_simp
  have ne: "collect_transactions wide_pages \<noteq> []" by (simp add: c)
  have l: "length wide_pages = Suc 0" by (simp add: wide_pages_def)
  have s: "show_nat (Suc 0) = ''1''" by code_simp
  have e: "extract_hdfc_statement lib pdf_filename (Inr wide_pages) =
       ([Line (''Processing 1 pages in '' @ [CHR 0x27] @ pdf_filename @ [CHR 0x27] @ ''...'')],
        Inl ValueError)"
    using ne h by (simp add: extract_hdfc_statement_def Let_def l s)
  have m: "main lib (Inr wide_pages) \<lparr>stdout = [], files = []\<rparr> =
       \<lparr>stdout =
          [Line (''Processing 1 pages in '' @ [CHR 0x27] @ pdf_filename @ [CHR 0x27] @ ''...''),
           Unexpected ValueError],
        files = []\<rparr>"
    unfolding main_def e by simp
  show ?thesis using c h e m by simp
qed

end
